theory Spec2Isabelle
  imports Main "HOL-Library.Word"
begin

unbundle bit_operations_syntax

section \<open>ConfigPageManager (dtool/src/prc/configPageManager.cxx)\<close>

text \<open>
  A \<open>ConfigPage *\<close> is an address, a \<open>GlobPattern\<close> its pattern string.
  The manager keeps its two page vectors in order; \<open>delete page\<close> is recorded in
  \<open>deleted_pages\<close>.
\<close>

type_synonym page_ptr = nat

record config_page_manager =
  implicit_pages :: "page_ptr list"
  explicit_pages :: "page_ptr list"
  pages_sorted :: bool
  next_page_seq :: nat
  prc_patterns :: "string list"
  prc_encrypted_patterns :: "string list"
  prc_executable_patterns :: "string list"
  deleted_pages :: "page_ptr set"
  global_modified :: nat

text \<open>
  Modelled from the spec: \<open>invalidate_cache()\<close> is defined in configPageManager.I,
  not among the sources at hand.  It advances the global modification counter against
  which every variable checks the value it has cached; the counter is
  \<open>global_modified\<close>.
\<close>

definition invalidate_cache :: "config_page_manager \<Rightarrow> config_page_manager" where
  "invalidate_cache m = m\<lparr>global_modified := Suc (global_modified m)\<rparr>"

text \<open>
  \<open>make_explicit_page\<close>: the new page (allocated by the caller's \<open>new\<close>, here the
  address \<open>page\<close>) is pushed at the back of the explicit pages.
\<close>

definition make_explicit_page ::
  "config_page_manager \<Rightarrow> page_ptr \<Rightarrow> page_ptr \<times> config_page_manager" where
  "make_explicit_page m page =
     (page, invalidate_cache
        (m\<lparr>explicit_pages := explicit_pages m @ [page],
           next_page_seq := Suc (next_page_seq m),
           pages_sorted := False\<rparr>))"

text \<open>
  The loop of \<open>delete_explicit_page\<close>: \<open>pi\<close> walks the vector from \<open>begin()\<close>;
  \<open>seen\<close> is the part before \<open>pi\<close>, the third argument the part from \<open>pi\<close> on.
  At the first element equal to \<open>page\<close> the element is erased and the loop returns.
\<close>

fun delete_explicit_page_loop ::
  "page_ptr \<Rightarrow> page_ptr list \<Rightarrow> page_ptr list \<Rightarrow> page_ptr list option" where
  "delete_explicit_page_loop page seen [] = None"
| "delete_explicit_page_loop page seen (p # rest) =
     (if p = page then Some (seen @ rest)
      else delete_explicit_page_loop page (seen @ [p]) rest)"

definition delete_explicit_page ::
  "config_page_manager \<Rightarrow> page_ptr \<Rightarrow> bool \<times> config_page_manager" where
  "delete_explicit_page m page =
     (case delete_explicit_page_loop page [] (explicit_pages m) of
        Some pages' \<Rightarrow>
          (True, invalidate_cache
                   (m\<lparr>explicit_pages := pages',
                      deleted_pages := insert page (deleted_pages m)\<rparr>))
      | None \<Rightarrow> (False, m))"


subsection \<open>Resolving the \<open><auto>\<close> prefix\<close>

text \<open>
  Modelled from the spec: \<open>Filename\<close>, \<open>GlobPattern\<close> and
  \<open>ExecutionEnvironment\<close> are classes of the repository that are not part of the
  sources at hand (the specification lists file I/O primitives among the external
  collaborators).  What \<open>scan_auto_prc_dir\<close> and \<open>scan_up_from\<close> take from them
  is a parameter, a field of \<open>prc_env\<close>: the \<open>Filename\<close> operations
  (\<open>get_dirname\<close>, the two-argument constructor \<open>Filename(dir, suffix)\<close>,
  \<open>is_directory\<close>, \<open>scan_directory\<close>, which fails with \<open>None\<close>),
  \<open>GlobPattern::matches\<close>, and the two starting points the code reads:
  \<open>ExecutionEnvironment::get_dtool_name()\<close>, the file name of the dtool library, and
  the environment variable \<open>MAIN_DIR\<close>.  \<open>binary_name\<close> is
  \<open>ExecutionEnvironment::get_binary_name()\<close>, the file name of the executable that
  started the program; \<open>scan_auto_prc_dir\<close> never asks for it.  A \<open>Filename\<close>
  is its string.
\<close>

record prc_env =
  dtool_name :: string
  binary_name :: string
  main_dir :: string
  get_dirname :: "string \<Rightarrow> string"
  join_filename :: "string \<Rightarrow> string \<Rightarrow> string"
  is_directory :: "string \<Rightarrow> bool"
  scan_directory :: "string \<Rightarrow> string list option"
  glob_matches :: "string \<Rightarrow> string \<Rightarrow> bool"

text \<open>The inner loops of \<open>scan_up_from\<close>: over a list of globs, and over the files.\<close>

fun glob_loop :: "prc_env \<Rightarrow> string list \<Rightarrow> string \<Rightarrow> bool" where
  "glob_loop E [] f = False"
| "glob_loop E (g # gs) f = (if glob_matches E g f then True else glob_loop E gs f)"

fun files_loop :: "prc_env \<Rightarrow> config_page_manager \<Rightarrow> string list \<Rightarrow> bool" where
  "files_loop E m [] = False"
| "files_loop E m (f # fs) =
     (if glob_loop E (prc_patterns m) f then True
      else if glob_loop E (prc_executable_patterns m) f then True
      else files_loop E m fs)"

text \<open>
  The test \<open>scan_up_from\<close> makes on \<open>consider\<close>: it is a directory, it can be
  scanned, and one of its files matches a read pattern or an executable pattern.
\<close>

definition consider_matches :: "prc_env \<Rightarrow> config_page_manager \<Rightarrow> string \<Rightarrow> bool" where
  "consider_matches E m consider =
     (if is_directory E consider
      then (case scan_directory E consider of
              Some files \<Rightarrow> files_loop E m files
            | None \<Rightarrow> False)
      else False)"

text \<open>
  \<open>scan_up_from(result, dir, suffix)\<close>.  The C++ recursion ends only when
  \<open>get_dirname\<close> reaches a fixed point, so the model is a partial function: the
  outer \<open>None\<close> is "does not return"; \<open>Some (Some r)\<close> is \<open>true\<close> with
  \<open>result = r\<close>; \<open>Some None\<close> is \<open>false\<close>, \<open>result\<close> untouched.
\<close>

partial_function (option) scan_up_from ::
  "prc_env \<Rightarrow> config_page_manager \<Rightarrow> string \<Rightarrow> string \<Rightarrow> string option option" where
  "scan_up_from E m dir suffix =
     (if consider_matches E m (join_filename E dir suffix)
      then Some (Some (join_filename E dir suffix))
      else if dir = get_dirname E dir then Some None
      else scan_up_from E m (get_dirname E dir) suffix)"

text \<open>
  \<open>scan_auto_prc_dir(prc_dir)\<close>: the returned pair is the \<open>bool\<close> and the value of
  the reference parameter \<open>prc_dir\<close> afterwards.
\<close>

definition scan_auto_prc_dir ::
  "prc_env \<Rightarrow> config_page_manager \<Rightarrow> string \<Rightarrow> (bool \<times> string) option" where
  "scan_auto_prc_dir E m prc_dir =
     (if take 6 prc_dir = ''<auto>''
      then (case scan_up_from E m (get_dirname E (dtool_name E)) (drop 6 prc_dir) of
              None \<Rightarrow> None
            | Some (Some r) \<Rightarrow> Some (True, r)
            | Some None \<Rightarrow>
                (case scan_up_from E m (main_dir E) (drop 6 prc_dir) of
                   None \<Rightarrow> None
                 | Some (Some r) \<Rightarrow> Some (True, r)
                 | Some None \<Rightarrow> Some (False, prc_dir)))
      else Some (True, prc_dir))"

text \<open>
  The use \<open>reload_implicit_pages\<close> makes of it, once per directory name it reads:
  \<^verbatim>\<open>if (scan_auto_prc_dir(prc_dir_filename)) {
    _search_path.append_directory(prc_dir_filename); }\<close>
\<close>

definition append_scanned_directory ::
  "prc_env \<Rightarrow> config_page_manager \<Rightarrow> string list \<Rightarrow> string \<Rightarrow> string list option" where
  "append_scanned_directory E m search_path prc_dir =
     (case scan_auto_prc_dir E m prc_dir of
        None \<Rightarrow> None
      | Some (ok, dir) \<Rightarrow> Some (if ok then search_path @ [dir] else search_path))"

text \<open>
  The specification's reading of the scan, to compare with the code: the directories
  from \<open>d\<close> upward, each followed by its parent, ending at the directory that is its
  own parent (the root); \<open>n\<close> bounds the number of steps.
\<close>

fun upward_within :: "prc_env \<Rightarrow> nat \<Rightarrow> string \<Rightarrow> string list" where
  "upward_within E 0 d = [d]"
| "upward_within E (Suc n) d =
     (if d = get_dirname E d then [d] else d # upward_within E n (get_dirname E d))"

definition upward :: "prc_env \<Rightarrow> string \<Rightarrow> string list" where
  "upward E d = upward_within E (length d) d"

text \<open>
  The specification's test on a candidate: it is a directory that can be listed and that
  contains at least one file matching one of the read patterns or one of the executable
  patterns.  It is written with the two pattern lists and the file list as sets; the
  code's nested loops are \<open>consider_matches\<close> above.
\<close>

definition has_matching_file :: "prc_env \<Rightarrow> config_page_manager \<Rightarrow> string \<Rightarrow> bool" where
  "has_matching_file E m dir \<longleftrightarrow>
     is_directory E dir
     \<and> (case scan_directory E dir of
          None \<Rightarrow> False
        | Some files \<Rightarrow>
            (\<exists>f\<in>set files.
               \<exists>g\<in>set (prc_patterns m) \<union> set (prc_executable_patterns m).
                 glob_matches E g f))"

text \<open>
  The resolution that starts where the code starts: the first candidate with a matching
  file, the candidates being \<open>dir/suffix\<close> for \<open>dir\<close> going upward from \<open>start\<close>
  and then upward from \<open>MAIN_DIR\<close>.  A name without the prefix stands unchanged;
  when no candidate has a matching file the answer is \<open>false\<close>.
\<close>

definition resolution_from ::
  "prc_env \<Rightarrow> config_page_manager \<Rightarrow> string \<Rightarrow> string \<Rightarrow> bool \<times> string" where
  "resolution_from E m start prc_dir =
     (if take 6 prc_dir = ''<auto>''
      then (case find (has_matching_file E m)
                   (map (\<lambda>d. join_filename E d (drop 6 prc_dir))
                      (upward E start @ upward E (main_dir E))) of
              Some r \<Rightarrow> (True, r)
            | None \<Rightarrow> (False, prc_dir))
      else (True, prc_dir))"

text \<open>What the code computes: the scan starts at the directory of the dtool library.\<close>

definition auto_resolution ::
  "prc_env \<Rightarrow> config_page_manager \<Rightarrow> string \<Rightarrow> bool \<times> string" where
  "auto_resolution E m prc_dir = resolution_from E m (get_dirname E (dtool_name E)) prc_dir"

text \<open>
  The specification's wording: the scan starts at the executable's own directory.
\<close>

definition executable_resolution ::
  "prc_env \<Rightarrow> config_page_manager \<Rightarrow> string \<Rightarrow> bool \<times> string" where
  "executable_resolution E m prc_dir =
     resolution_from E m (get_dirname E (binary_name E)) prc_dir"

text \<open>
  A small file system to run the scan on: the dtool library is installed under \<open>/r\<close>
  and \<open>/r/etc\<close> holds \<open>Config.prc\<close>; the program that was started is
  \<open>/opt/app/prog\<close>, and \<open>/opt/app/etc\<close> holds \<open>Local.prc\<close>.
\<close>

definition example_env :: prc_env where
  "example_env =
     \<lparr>dtool_name = ''/r/bin/libp3dtool.so'',
      binary_name = ''/opt/app/prog'',
      main_dir = ''/home/me'',
      get_dirname = (\<lambda>d. if d = ''/r/bin/libp3dtool.so'' then ''/r/bin''
                        else if d = ''/r/bin'' then ''/r''
                        else if d = ''/r'' then ''/''
                        else if d = ''/home/me'' then ''/home''
                        else if d = ''/home'' then ''/''
                        else if d = ''/opt/app/prog'' then ''/opt/app''
                        else if d = ''/opt/app'' then ''/opt''
                        else if d = ''/opt'' then ''/''
                        else d),
      join_filename = (\<lambda>d s. if d = ''/'' then d @ s else d @ ''/'' @ s),
      is_directory = (\<lambda>d. d \<in> set [''/r/etc'', ''/r/bin'', ''/r'', ''/'', ''/home'', ''/home/me'',
                                     ''/opt'', ''/opt/app'', ''/opt/app/etc'', ''/r/doc'',
                                     ''/home/me/conf'']),
      scan_directory = (\<lambda>d. if d = ''/r/etc'' then Some [''README'', ''Config.prc'']
                           else if d = ''/opt/app/etc'' then Some [''Local.prc'']
                           else if d = ''/home/me/conf'' then Some [''notes'', ''gen.exe'']
                           else if d = ''/r/bin'' then Some [''panda'']
                           else if d = ''/r/doc'' then Some [''manual.txt'']
                           else Some []),
      glob_matches = (\<lambda>g f. (g = ''*.prc'' \<and> drop (length f - 4) f = ''.prc'')
                             \<or> (g = ''*.exe'' \<and> drop (length f - 4) f = ''.exe''))\<rparr>"

definition example_manager :: config_page_manager where
  "example_manager =
     \<lparr>implicit_pages = [], explicit_pages = [], pages_sorted = True, next_page_seq = 1,
      prc_patterns = [''*.prc''], prc_encrypted_patterns = [''*.prc.pe''],
      prc_executable_patterns = [''*.exe''], deleted_pages = {}, global_modified = 0\<rparr>"

section \<open>RenderState (panda/src/pgraph/renderState.cxx)\<close>

text \<open>
  A \<open>RenderState *\<close> and a \<open>RenderAttrib *\<close> are addresses; the null attribute
  pointer is \<open>None\<close>.  An \<open>Attribute\<close> is the pair the array \<open>_attributes\<close>
  holds per slot; its default constructor gives the null pointer and override 0.
\<close>

type_synonym state_ptr = nat
type_synonym attrib_ptr = nat
type_synonym slot_mask = "32 word"

record attribute =
  attrib :: "attrib_ptr option"
  override :: int

definition default_attribute :: attribute where
  "default_attribute = \<lparr>attrib = None, override = 0\<rparr>"

text \<open>
  Modelled from the spec: the attribute implementations and the slot registry
  (\<open>RenderAttrib\<close>, \<open>RenderAttribRegistry\<close>) are external collaborators of which
  only the interface the states consume is specified, and the hash combinators
  \<open>pointer_hash::add_hash\<close> and \<open>int_hash::add_hash\<close> belong to dtool; none of
  them is among the sources at hand.  Each is a parameter, a field of \<open>attrib_ops\<close>:
  \<open>get_slot\<close>, \<open>compose\<close>, \<open>invert_compose\<close>, \<open>lower_attrib_can_override\<close>
  and \<open>compare_to\<close> of an attribute, \<open>RenderAttrib::do_uniquify\<close> (the
  attribute-level interner), the registry's \<open>get_num_slots\<close>, \<open>_max_slots\<close> and
  \<open>get_slot_default\<close>, and the two hash combinators (the first takes the attribute
  pointer, which may be null).
\<close>

record attrib_ops =
  get_slot :: "attrib_ptr \<Rightarrow> nat"
  attrib_compose :: "attrib_ptr \<Rightarrow> attrib_ptr \<Rightarrow> attrib_ptr"
  attrib_invert_compose :: "attrib_ptr \<Rightarrow> attrib_ptr \<Rightarrow> attrib_ptr"
  lower_attrib_can_override :: "attrib_ptr \<Rightarrow> bool"
  attrib_compare_to :: "attrib_ptr \<Rightarrow> attrib_ptr \<Rightarrow> int"
  do_uniquify :: "attrib_ptr \<Rightarrow> attrib_ptr"
  get_num_slots :: nat
  get_max_slots :: nat
  get_slot_default :: "nat \<Rightarrow> attrib_ptr"
  pointer_add_hash :: "nat \<Rightarrow> attrib_ptr option \<Rightarrow> nat"
  int_add_hash :: "nat \<Rightarrow> int \<Rightarrow> nat"

text \<open>
  A state object: the attribute array, the mask of filled slots, the index
  \<open>_saved_entry\<close> in the intern table (\<open>-1\<close> when it is not there), the two
  reference counts, the two composition caches (a \<open>SimpleHashMap\<close> from state pointer
  to \<open>Composition\<close>, kept as the list of its entries in index order; the result
  pointer of an entry may be null), the cycle-detection stamp, and the cached hash with
  the flag \<open>F_hash_known\<close>.
\<close>

type_synonym composition_cache_t = "(state_ptr \<times> state_ptr option) list"

record render_state =
  attributes :: "nat \<Rightarrow> attribute"
  filled_slots :: slot_mask
  saved_entry :: int
  ref_count :: int
  cache_ref_count :: int
  composition_cache :: composition_cache_t
  invert_composition_cache :: composition_cache_t
  cycle_detect :: nat
  hash :: nat
  hash_known :: bool

text \<open>
  The world: the objects by address (\<open>new\<close> takes the address \<open>next_ptr\<close>,
  \<open>delete\<close> records the address in \<open>freed\<close>), the static members \<open>_states\<close>
  (the keys of the intern table in index order), \<open>_empty_state\<close> and
  \<open>_last_cycle_detect\<close>, the configuration variables the code reads, and whether the
  build defines \<open>NDEBUG\<close> (then \<open>nassertr\<close> and its relatives check nothing).
  A function that returns a \<open>CPT(RenderState)\<close> returns the address, and \<open>None\<close>
  stands for a call that does not return.
\<close>

record world =
  heap :: "state_ptr \<Rightarrow> render_state"
  next_ptr :: state_ptr
  freed :: "state_ptr set"
  states :: "state_ptr list"
  empty_state :: state_ptr
  last_cycle_detect :: nat
  state_cache :: bool
  uniquify_states :: bool
  uniquify_attribs :: bool
  garbage_collect_states :: bool
  auto_break_cycles :: bool
  paranoid_const :: bool
  ndebug :: bool

subsection \<open>SlotMask\<close>

text \<open>
  Modelled from the spec: \<open>SlotMask\<close> is \<open>BitMask32\<close> of putil, not among the
  sources at hand: the filled-slots bitmask, iterated over its on bits from the lowest;
  \<open>get_lowest_on_bit\<close> answers \<open>-1\<close> when no bit is on.
\<close>

definition on_bits :: "slot_mask \<Rightarrow> nat list" where
  "on_bits msk = filter (bit msk) [0..<32]"

definition get_lowest_on_bit :: "slot_mask \<Rightarrow> int" where
  "get_lowest_on_bit msk = (case on_bits msk of [] \<Rightarrow> -1 | n # _ \<Rightarrow> int n)"

definition get_num_on_bits :: "slot_mask \<Rightarrow> nat" where
  "get_num_on_bits msk = length (on_bits msk)"

lemma on_bits_iff: "n \<in> set (on_bits msk) \<longleftrightarrow> bit msk n"
  by (auto simp: on_bits_def dest: bit_imp_le_length)

lemma lowest_on_bit_is_on:
  "0 \<le> get_lowest_on_bit msk \<Longrightarrow> bit msk (nat (get_lowest_on_bit msk))"
  by (auto simp: get_lowest_on_bit_def on_bits_iff [symmetric] split: list.splits)

lemma on_bits_unset: "on_bits (unset_bit n msk) = filter (\<lambda>m. m \<noteq> n) (on_bits msk)"
  by (auto simp: on_bits_def bit_unset_bit_iff intro: filter_cong)

lemma clear_bit_decreases:
  assumes "0 \<le> get_lowest_on_bit msk"
  shows "length (on_bits (unset_bit (nat (get_lowest_on_bit msk)) msk)) < length (on_bits msk)"
proof -
  have "nat (get_lowest_on_bit msk) \<in> set (on_bits msk)"
    using lowest_on_bit_is_on [OF assms] by (simp add: on_bits_iff)
  then show ?thesis
    unfolding on_bits_unset by (rule length_filter_less) simp
qed

subsection \<open>compare_to\<close>

text \<open>
  Modelled from the spec: \<open>Attribute::compare_to\<close> is defined in renderState.I, not
  among the sources at hand.  The identity order compares attribute entries slot by slot
  using attribute-level value equality (not the pointer): two different attribute
  pointers are ordered by the attributes' own \<open>compare_to\<close>, a null pointer sorting
  first, and entries with equal attributes by their overrides.  The overrides are
  \<open>int\<close>s of 32 bits in the code and integers here: the difference of two overrides
  is the code's whenever it fits 32 bits.
\<close>

definition attribute_compare_to :: "attrib_ops \<Rightarrow> attribute \<Rightarrow> attribute \<Rightarrow> int" where
  "attribute_compare_to R x y =
     (if attrib x \<noteq> attrib y
      then (case attrib x of
              None \<Rightarrow> -1
            | Some a \<Rightarrow>
                (case attrib y of
                   None \<Rightarrow> 1
                 | Some b \<Rightarrow>
                     (if attrib_compare_to R a b \<noteq> 0 then attrib_compare_to R a b
                      else override x - override y)))
      else override x - override y)"

function compare_to_loop ::
  "attrib_ops \<Rightarrow> render_state \<Rightarrow> render_state \<Rightarrow> slot_mask \<Rightarrow> int" where
  "compare_to_loop R this other msk =
     (if 0 \<le> get_lowest_on_bit msk
      then (if attribute_compare_to R (attributes this (nat (get_lowest_on_bit msk)))
                 (attributes other (nat (get_lowest_on_bit msk))) \<noteq> 0
            then attribute_compare_to R (attributes this (nat (get_lowest_on_bit msk)))
                   (attributes other (nat (get_lowest_on_bit msk)))
            else compare_to_loop R this other (unset_bit (nat (get_lowest_on_bit msk)) msk))
      else 0)"
  by pat_completeness auto
termination
  by (relation "measure (\<lambda>(R, this, other, msk). length (on_bits msk))")
    (simp_all add: clear_bit_decreases)

declare compare_to_loop.simps [simp del]

definition compare_to :: "attrib_ops \<Rightarrow> render_state \<Rightarrow> render_state \<Rightarrow> int" where
  "compare_to R this other =
     compare_to_loop R this other (filled_slots this OR filled_slots other)"

text \<open>
  Modelled from the spec: \<open>is_empty()\<close> is defined in renderState.I; a state is empty
  when no slot is filled.
\<close>

definition is_empty :: "render_state \<Rightarrow> bool" where
  "is_empty s = (filled_slots s = 0)"

fun validate_loop :: "render_state \<Rightarrow> nat list \<Rightarrow> slot_mask \<Rightarrow> slot_mask" where
  "validate_loop s [] msk = msk"
| "validate_loop s (slot # slots) msk =
     validate_loop s slots
       (if attrib (attributes s slot) \<noteq> None then set_bit slot msk else msk)"

definition validate_filled_slots :: "attrib_ops \<Rightarrow> render_state \<Rightarrow> bool" where
  "validate_filled_slots R s =
     (validate_loop s [1..<get_max_slots R] 0 = filled_slots s)"

subsection \<open>Construction, the intern table\<close>

definition put :: "world \<Rightarrow> state_ptr \<Rightarrow> render_state \<Rightarrow> world" where
  "put w p s = w\<lparr>heap := (heap w)(p := s)\<rparr>"

definition blank_state :: render_state where
  "blank_state =
     \<lparr>attributes = (\<lambda>slot. default_attribute), filled_slots = 0, saved_entry = -1,
      ref_count = 0, cache_ref_count = 0, composition_cache = [],
      invert_composition_cache = [], cycle_detect = 0, hash = 0, hash_known = False\<rparr>"

definition new_render_state :: "world \<Rightarrow> state_ptr \<times> world" where
  "new_render_state w =
     (next_ptr w, (put w (next_ptr w) blank_state)\<lparr>next_ptr := Suc (next_ptr w)\<rparr>)"

definition copy_render_state :: "attrib_ops \<Rightarrow> world \<Rightarrow> state_ptr \<Rightarrow> state_ptr \<times> world" where
  "copy_render_state R w copy =
     (next_ptr w,
      (put w (next_ptr w)
         (blank_state
            \<lparr>attributes := (\<lambda>i. if i < get_num_slots R then attributes (heap w copy) i
                                else default_attribute),
             filled_slots := filled_slots (heap w copy)\<rparr>))
        \<lparr>next_ptr := Suc (next_ptr w)\<rparr>)"

definition delete_state :: "world \<Rightarrow> state_ptr \<Rightarrow> world" where
  "delete_state w p = w\<lparr>freed := insert p (freed w)\<rparr>"

definition set_attribute :: "render_state \<Rightarrow> nat \<Rightarrow> attribute \<Rightarrow> render_state" where
  "set_attribute s slot a = s\<lparr>attributes := (attributes s)(slot := a)\<rparr>"

text \<open>
  Modelled from the spec: \<open>cache_ref()\<close> belongs to \<open>CachedTypedWritableReferenceCount\<close>,
  not among the sources at hand; a cache reference counts in both reference counts.
\<close>

definition cache_ref :: "world \<Rightarrow> state_ptr \<Rightarrow> world" where
  "cache_ref w p =
     put w p ((heap w p)\<lparr>cache_ref_count := cache_ref_count (heap w p) + 1,
                          ref_count := ref_count (heap w p) + 1\<rparr>)"

subsection \<open>The hash and the intern table\<close>

text \<open>
  \<open>do_calc_hash\<close>: the loop over the filled slots, from \<open>_hash = 0\<close>.  In a debug
  build \<open>nassertv(attrib._attrib != nullptr)\<close> leaves the function at a filled slot
  with a null pointer: the hash stays as far as it was computed and \<open>F_hash_known\<close>
  is not set.  The loop returns whether it ran to its end, and the hash.
\<close>

function calc_hash_loop ::
  "attrib_ops \<Rightarrow> bool \<Rightarrow> render_state \<Rightarrow> slot_mask \<Rightarrow> nat \<Rightarrow> bool \<times> nat" where
  "calc_hash_loop R nd s msk h =
     (if 0 \<le> get_lowest_on_bit msk
      then (if attrib (attributes s (nat (get_lowest_on_bit msk))) = None \<and> \<not> nd
            then (False, h)
            else calc_hash_loop R nd s (unset_bit (nat (get_lowest_on_bit msk)) msk)
                   (int_add_hash R
                      (pointer_add_hash R h (attrib (attributes s (nat (get_lowest_on_bit msk)))))
                      (override (attributes s (nat (get_lowest_on_bit msk))))))
      else (True, h))"
  by pat_completeness auto
termination
  by (relation "measure (\<lambda>(R, nd, s, msk, h). length (on_bits msk))")
    (simp_all add: clear_bit_decreases)

declare calc_hash_loop.simps [simp del]

definition do_calc_hash :: "attrib_ops \<Rightarrow> bool \<Rightarrow> render_state \<Rightarrow> render_state" where
  "do_calc_hash R nd s =
     (case calc_hash_loop R nd s (filled_slots s) 0 of
        (done, h) \<Rightarrow> if done then s\<lparr>hash := h, hash_known := True\<rparr> else s\<lparr>hash := h\<rparr>)"

text \<open>
  Modelled from the spec: \<open>get_hash()\<close> and \<open>check_hash()\<close> are defined in
  renderState.I, not among the sources at hand; the state keeps "a cached content hash
  (lazy)": the hash is computed by \<open>do_calc_hash\<close> the first time it is asked for and
  answered from \<open>_hash\<close> once \<open>F_hash_known\<close> is set.
\<close>

definition check_hash :: "attrib_ops \<Rightarrow> bool \<Rightarrow> render_state \<Rightarrow> render_state" where
  "check_hash R nd s = (if hash_known s then s else do_calc_hash R nd s)"

definition get_hash :: "attrib_ops \<Rightarrow> bool \<Rightarrow> render_state \<Rightarrow> nat" where
  "get_hash R nd s = hash (check_hash R nd s)"

text \<open>
  Modelled from the spec: the intern table \<open>_states\<close> is a \<open>SimpleHashMap\<close> with
  the comparator \<open>indirect_compare_to_hash\<close>, neither among the sources at hand: "a
  hash table keyed by structural hash of a state (mixing pointer of each canonical
  attribute and its override), deduplicating by \<open>compare_to\<close>".  The table is the
  list of its keys in index order.  \<open>find\<close> looks the key up under its hash and
  answers the entry with that hash that is the same pointer or compares equal;
  \<open>store\<close> of a key that \<open>find\<close> does not know appends it and answers its index.
\<close>

fun find_state :: "attrib_ops \<Rightarrow> world \<Rightarrow> state_ptr list \<Rightarrow> state_ptr \<Rightarrow> state_ptr option" where
  "find_state R w [] state = None"
| "find_state R w (k # ks) state =
     (if get_hash R (ndebug w) (heap w k) = get_hash R (ndebug w) (heap w state)
         \<and> (k = state \<or> compare_to R (heap w k) (heap w state) = 0)
      then Some k
      else find_state R w ks state)"

text \<open>
  \<open>validate_states()\<close>: every key has a reference count that is not negative, and
  \<open>compare_to\<close> answers consistently in both directions on each key and its
  successor.  \<open>_states.validate()\<close>, the hash map's check of its own index, has
  nothing to check on a list of keys.
\<close>

fun validate_states_loop :: "attrib_ops \<Rightarrow> world \<Rightarrow> state_ptr \<Rightarrow> state_ptr list \<Rightarrow> bool" where
  "validate_states_loop R w si [] = True"
| "validate_states_loop R w si (snext # rest) =
     (if \<not> ndebug w \<and> ref_count (heap w snext) < 0 then False
      else if (compare_to R (heap w snext) (heap w si) < 0)
                \<noteq> (0 < compare_to R (heap w si) (heap w snext))
           \<or> (0 < compare_to R (heap w snext) (heap w si))
                \<noteq> (compare_to R (heap w si) (heap w snext) < 0)
           \<or> (compare_to R (heap w snext) (heap w si) = 0)
                \<noteq> (compare_to R (heap w si) (heap w snext) = 0)
      then False
      else validate_states_loop R w snext rest)"

definition validate_states :: "attrib_ops \<Rightarrow> world \<Rightarrow> bool" where
  "validate_states R w =
     (case states w of
        [] \<Rightarrow> True
      | si # rest \<Rightarrow>
          (if \<not> ndebug w \<and> ref_count (heap w si) < 0 then False
           else validate_states_loop R w si rest))"

text \<open>
  The loop of \<open>return_unique\<close> that passes every attribute of the state through the
  attribute-level interner.  At a filled slot with a null pointer the debug build's
  \<open>nassertd(...) continue\<close> repeats the same slot for ever, and the release build
  hands the null pointer to \<open>do_uniquify\<close>: the loop does not return.
\<close>

function uniquify_loop ::
  "attrib_ops \<Rightarrow> render_state \<Rightarrow> slot_mask \<Rightarrow> render_state option" where
  "uniquify_loop R s msk =
     (if 0 \<le> get_lowest_on_bit msk
      then (case attrib (attributes s (nat (get_lowest_on_bit msk))) of
              None \<Rightarrow> None
            | Some a \<Rightarrow>
                uniquify_loop R
                  (set_attribute s (nat (get_lowest_on_bit msk))
                     ((attributes s (nat (get_lowest_on_bit msk)))
                        \<lparr>attrib := Some (do_uniquify R a)\<rparr>))
                  (unset_bit (nat (get_lowest_on_bit msk)) msk))
      else Some s)"
  by pat_completeness auto
termination
  by (relation "measure (\<lambda>(R, s, msk). length (on_bits msk))")
    (simp_all add: clear_bit_decreases)

declare uniquify_loop.simps [simp del]

text \<open>
  \<open>return_unique(state)\<close>.  With the state cache off the state is handed back as it
  is.  In a debug build with \<open>paranoid_const\<close> set, a table that fails
  \<open>validate_states()\<close> also hands the state back.  A state that records an entry is
  already in the table.  Otherwise the attributes are made unique (when they were not
  at their creation), and the table is asked: \<open>_states.find(state)\<close> computes the hash
  of the key, which stays cached in the state; the equivalent entry is returned and the
  new state deleted when nothing refers to it, or the state is stored at the next index.
\<close>

definition return_unique ::
  "attrib_ops \<Rightarrow> world \<Rightarrow> state_ptr \<Rightarrow> (state_ptr \<times> world) option" where
  "return_unique R w state =
     (if \<not> state_cache w then Some (state, w)
      else if \<not> ndebug w \<and> paranoid_const w \<and> \<not> validate_states R w then Some (state, w)
      else if saved_entry (heap w state) \<noteq> -1 then Some (state, w)
      else
        (case (if \<not> uniquify_attribs w \<and> \<not> is_empty (heap w state)
               then uniquify_loop R (heap w state) (filled_slots (heap w state))
               else Some (heap w state)) of
           None \<Rightarrow> None
         | Some u \<Rightarrow>
             (let s = check_hash R (ndebug w) u in
              case find_state R (put w state s) (states w) state of
                Some k \<Rightarrow>
                  Some (k, if ref_count s = 0 then delete_state (put w state s) state
                           else put w state s)
              | None \<Rightarrow>
                  (let w1 = (if garbage_collect_states w then cache_ref (put w state s) state
                             else put w state s)
                   in Some (state,
                        (put w1 state ((heap w1 state)\<lparr>saved_entry := int (length (states w))\<rparr>))
                          \<lparr>states := states w @ [state]\<rparr>)))))"

definition return_new ::
  "attrib_ops \<Rightarrow> world \<Rightarrow> state_ptr \<Rightarrow> (state_ptr \<times> world) option" where
  "return_new R w state =
     (let s = (heap w state)
            \<lparr>attributes := (attributes (heap w state))
                              (0 := (attributes (heap w state) 0)\<lparr>attrib := None\<rparr>),
             filled_slots := unset_bit 0 (filled_slots (heap w state))\<rparr>
      in if \<not> ndebug w \<and> \<not> validate_filled_slots R s then Some (state, put w state s)
         else if \<not> uniquify_states w \<and> \<not> is_empty s then Some (state, put w state s)
         else return_unique R (put w state s) state)"

subsection \<open>Composition\<close>

definition compose_slot :: "attrib_ops \<Rightarrow> bool \<Rightarrow> attribute \<Rightarrow> attribute \<Rightarrow> attribute option" where
  "compose_slot R nd a b =
     (case attrib a of
        None \<Rightarrow> (if attrib b = None \<and> \<not> nd then None else Some b)
      | Some pa \<Rightarrow>
          (case attrib b of
             None \<Rightarrow> Some a
           | Some pb \<Rightarrow>
               (if override b < override a then Some a
                else if override a < override b \<and> lower_attrib_can_override R pa then Some b
                else Some \<lparr>attrib = Some (attrib_compose R pa pb), override = override b\<rparr>)))"

function do_compose_loop ::
  "attrib_ops \<Rightarrow> bool \<Rightarrow> render_state \<Rightarrow> render_state \<Rightarrow> slot_mask \<Rightarrow> render_state
     \<Rightarrow> bool \<times> render_state" where
  "do_compose_loop R nd this other msk new_state =
     (if 0 \<le> get_lowest_on_bit msk
      then (case compose_slot R nd (attributes this (nat (get_lowest_on_bit msk)))
                   (attributes other (nat (get_lowest_on_bit msk))) of
              None \<Rightarrow> (False, new_state)
            | Some result \<Rightarrow>
                do_compose_loop R nd this other (unset_bit (nat (get_lowest_on_bit msk)) msk)
                  (set_attribute new_state (nat (get_lowest_on_bit msk)) result))
      else (True, new_state))"
  by pat_completeness auto
termination
  by (relation "measure (\<lambda>(R, nd, this, other, msk, new_state). length (on_bits msk))")
    (simp_all add: clear_bit_decreases)

declare do_compose_loop.simps [simp del]

definition do_compose ::
  "attrib_ops \<Rightarrow> world \<Rightarrow> state_ptr \<Rightarrow> state_ptr \<Rightarrow> (state_ptr \<times> world) option" where
  "do_compose R w this other =
     (case new_render_state w of
        (new_state, w1) \<Rightarrow>
          (case do_compose_loop R (ndebug w) (heap w1 this) (heap w1 other)
                  (filled_slots (heap w1 this) OR filled_slots (heap w1 other))
                  ((heap w1 new_state)
                     \<lparr>filled_slots := filled_slots (heap w1 this) OR filled_slots (heap w1 other)\<rparr>) of
             (ok, s) \<Rightarrow>
               (if ok then return_new R (put w1 new_state s) new_state
                else Some (this, put w1 new_state s))))"

definition invert_compose_slot ::
  "attrib_ops \<Rightarrow> bool \<Rightarrow> nat \<Rightarrow> attribute \<Rightarrow> attribute \<Rightarrow> attribute option" where
  "invert_compose_slot R nd slot a b =
     (case attrib a of
        None \<Rightarrow> (if attrib b = None \<and> \<not> nd then None else Some b)
      | Some pa \<Rightarrow>
          (case attrib b of
             None \<Rightarrow>
               Some \<lparr>attrib = Some (attrib_invert_compose R pa (get_slot_default R slot)),
                     override = 0\<rparr>
           | Some pb \<Rightarrow>
               Some \<lparr>attrib = Some (attrib_invert_compose R pa pb), override = 0\<rparr>))"

function do_invert_compose_loop ::
  "attrib_ops \<Rightarrow> bool \<Rightarrow> render_state \<Rightarrow> render_state \<Rightarrow> slot_mask \<Rightarrow> render_state
     \<Rightarrow> bool \<times> render_state" where
  "do_invert_compose_loop R nd this other msk new_state =
     (if 0 \<le> get_lowest_on_bit msk
      then (case invert_compose_slot R nd (nat (get_lowest_on_bit msk))
                   (attributes this (nat (get_lowest_on_bit msk)))
                   (attributes other (nat (get_lowest_on_bit msk))) of
              None \<Rightarrow> (False, new_state)
            | Some result \<Rightarrow>
                do_invert_compose_loop R nd this other
                  (unset_bit (nat (get_lowest_on_bit msk)) msk)
                  (set_attribute new_state (nat (get_lowest_on_bit msk)) result))
      else (True, new_state))"
  by pat_completeness auto
termination
  by (relation "measure (\<lambda>(R, nd, this, other, msk, new_state). length (on_bits msk))")
    (simp_all add: clear_bit_decreases)

declare do_invert_compose_loop.simps [simp del]

definition do_invert_compose ::
  "attrib_ops \<Rightarrow> world \<Rightarrow> state_ptr \<Rightarrow> state_ptr \<Rightarrow> (state_ptr \<times> world) option" where
  "do_invert_compose R w this other =
     (case new_render_state w of
        (new_state, w1) \<Rightarrow>
          (case do_invert_compose_loop R (ndebug w) (heap w1 this) (heap w1 other)
                  (filled_slots (heap w1 this) OR filled_slots (heap w1 other))
                  ((heap w1 new_state)
                     \<lparr>filled_slots := filled_slots (heap w1 this) OR filled_slots (heap w1 other)\<rparr>) of
             (ok, s) \<Rightarrow>
               (if ok then return_new R (put w1 new_state s) new_state
                else Some (this, put w1 new_state s))))"

subsection \<open>The composition caches\<close>

text \<open>
  The forward cache and the invert cache of a state are handled by the same code up to
  the cache and the private function used; \<open>inverted\<close> selects between them.

  Modelled from the spec: the caches are \<open>SimpleHashMap\<close>s keyed by the pointer of
  the other state, and \<open>SimpleHashMap\<close> is not among the sources at hand.  A cache
  is the list of its entries in index order: \<open>find\<close> answers the index of the entry
  with the key, \<open>operator []\<close> and \<open>modify_data\<close> assign the data of the entry
  with the key, appending a new entry when there is none, and \<open>remove_element(n)\<close>
  moves the last entry into the place of the removed one.
\<close>

definition cache_of :: "bool \<Rightarrow> render_state \<Rightarrow> composition_cache_t" where
  "cache_of inverted s = (if inverted then invert_composition_cache s else composition_cache s)"

definition set_cache_of :: "bool \<Rightarrow> composition_cache_t \<Rightarrow> render_state \<Rightarrow> render_state" where
  "set_cache_of inverted c s =
     (if inverted then s\<lparr>invert_composition_cache := c\<rparr> else s\<lparr>composition_cache := c\<rparr>)"

fun cache_find :: "composition_cache_t \<Rightarrow> state_ptr \<Rightarrow> nat option" where
  "cache_find [] key = None"
| "cache_find (e # c) key =
     (if fst e = key then Some 0 else map_option Suc (cache_find c key))"

definition cache_assign ::
  "composition_cache_t \<Rightarrow> state_ptr \<Rightarrow> state_ptr option \<Rightarrow> composition_cache_t" where
  "cache_assign c key r =
     (case cache_find c key of
        Some i \<Rightarrow> c[i := (key, r)]
      | None \<Rightarrow> c @ [(key, r)])"

definition remove_element :: "nat \<Rightarrow> composition_cache_t \<Rightarrow> composition_cache_t" where
  "remove_element n c =
     (if n < length c then butlast (c[n := last c]) else c)"

definition store_result ::
  "bool \<Rightarrow> world \<Rightarrow> state_ptr \<Rightarrow> state_ptr \<Rightarrow> state_ptr option \<Rightarrow> world" where
  "store_result inverted w p key r =
     put w p (set_cache_of inverted (cache_assign (cache_of inverted (heap w p)) key r) (heap w p))"

definition cached_composition ::
  "bool \<Rightarrow> attrib_ops \<Rightarrow> world \<Rightarrow> state_ptr \<Rightarrow> state_ptr \<Rightarrow> (state_ptr \<times> world) option" where
  "cached_composition inverted R w this other =
     (case cache_find (cache_of inverted (heap w this)) other of
        Some index \<Rightarrow>
          (case snd (cache_of inverted (heap w this) ! index) of
             None \<Rightarrow>
               (case (if inverted then do_invert_compose R w this other
                      else do_compose R w this other) of
                  None \<Rightarrow> None
                | Some (result, w1) \<Rightarrow>
                    (let w2 = put w1 this
                           (set_cache_of inverted
                              ((cache_of inverted (heap w1 this))[index := (other, Some result)])
                              (heap w1 this))
                     in Some (result, if result \<noteq> this then cache_ref w2 result else w2)))
           | Some r \<Rightarrow> Some (r, w))
      | None \<Rightarrow>
          (case (if inverted then do_invert_compose R w this other
                 else do_compose R w this other) of
             None \<Rightarrow> None
           | Some (result, w1) \<Rightarrow>
               (let w2 = store_result inverted w1 this other (Some result);
                    w3 = (if other \<noteq> this then store_result inverted w2 other this None else w2)
                in Some (result, if result \<noteq> this then cache_ref w3 result else w3))))"

definition compose ::
  "attrib_ops \<Rightarrow> world \<Rightarrow> state_ptr \<Rightarrow> state_ptr \<Rightarrow> (state_ptr \<times> world) option" where
  "compose R w this other =
     (if is_empty (heap w this) then Some (other, w)
      else if is_empty (heap w other) then Some (this, w)
      else if \<not> state_cache w then do_compose R w this other
      else cached_composition False R w this other)"

definition invert_compose ::
  "attrib_ops \<Rightarrow> world \<Rightarrow> state_ptr \<Rightarrow> state_ptr \<Rightarrow> (state_ptr \<times> world) option" where
  "invert_compose R w this other =
     (if is_empty (heap w this) then Some (other, w)
      else if other = this then Some (empty_state w, w)
      else if \<not> state_cache w then do_invert_compose R w this other
      else cached_composition True R w this other)"

subsection \<open>Derived states\<close>

definition make ::
  "attrib_ops \<Rightarrow> world \<Rightarrow> attrib_ptr \<Rightarrow> int \<Rightarrow> (state_ptr \<times> world) option" where
  "make R w a ov =
     (case new_render_state w of
        (state, w1) \<Rightarrow>
          return_new R
            (put w1 state
               ((set_attribute (heap w1 state) (get_slot R a) \<lparr>attrib = Some a, override = ov\<rparr>)
                  \<lparr>filled_slots := set_bit (get_slot R a) (filled_slots (heap w1 state))\<rparr>))
            state)"

definition add_attrib ::
  "attrib_ops \<Rightarrow> world \<Rightarrow> state_ptr \<Rightarrow> attrib_ptr \<Rightarrow> int \<Rightarrow> (state_ptr \<times> world) option" where
  "add_attrib R w this a ov =
     (if bit (filled_slots (heap w this)) (get_slot R a)
         \<and> ov < override (attributes (heap w this) (get_slot R a))
      then Some (this, w)
      else (case copy_render_state R w this of
              (new_state, w1) \<Rightarrow>
                return_new R
                  (put w1 new_state
                     ((set_attribute (heap w1 new_state) (get_slot R a)
                         \<lparr>attrib = Some a, override = ov\<rparr>)
                        \<lparr>filled_slots := set_bit (get_slot R a) (filled_slots (heap w1 new_state))\<rparr>))
                  new_state))"

definition set_attrib ::
  "attrib_ops \<Rightarrow> world \<Rightarrow> state_ptr \<Rightarrow> attrib_ptr \<Rightarrow> (state_ptr \<times> world) option" where
  "set_attrib R w this a =
     (case copy_render_state R w this of
        (new_state, w1) \<Rightarrow>
          return_new R
            (put w1 new_state
               ((set_attribute (heap w1 new_state) (get_slot R a)
                   ((attributes (heap w1 new_state) (get_slot R a))\<lparr>attrib := Some a\<rparr>))
                  \<lparr>filled_slots := set_bit (get_slot R a) (filled_slots (heap w1 new_state))\<rparr>))
            new_state)"

definition set_attrib_override ::
  "attrib_ops \<Rightarrow> world \<Rightarrow> state_ptr \<Rightarrow> attrib_ptr \<Rightarrow> int \<Rightarrow> (state_ptr \<times> world) option" where
  "set_attrib_override R w this a ov =
     (case copy_render_state R w this of
        (new_state, w1) \<Rightarrow>
          return_new R
            (put w1 new_state
               ((set_attribute (heap w1 new_state) (get_slot R a)
                   \<lparr>attrib = Some a, override = ov\<rparr>)
                  \<lparr>filled_slots := set_bit (get_slot R a) (filled_slots (heap w1 new_state))\<rparr>))
            new_state)"

definition remove_attrib ::
  "attrib_ops \<Rightarrow> world \<Rightarrow> state_ptr \<Rightarrow> nat \<Rightarrow> (state_ptr \<times> world) option" where
  "remove_attrib R w this slot =
     (if attrib (attributes (heap w this) slot) = None then Some (this, w)
      else if get_num_on_bits (filled_slots (heap w this)) = 1 then Some (empty_state w, w)
      else (case copy_render_state R w this of
              (new_state, w1) \<Rightarrow>
                return_new R
                  (put w1 new_state
                     ((set_attribute (heap w1 new_state) slot default_attribute)
                        \<lparr>filled_slots := unset_bit slot (filled_slots (heap w1 new_state))\<rparr>))
                  new_state))"

text \<open>
  The loop of \<open>adjust_all_priorities\<close>.  \<open>_override\<close> and \<open>adjustment\<close> are
  \<open>int\<close>, 32 bits wide: the sum \<open>attrib._override + adjustment\<close> is taken in 32
  bits (two's complement, wrapping around) before \<open>std::max(..., 0)\<close>.
\<close>

definition int32_add :: "int \<Rightarrow> int \<Rightarrow> int" where
  "int32_add x y = sint (word_of_int (x + y) :: 32 word)"

function adjust_loop :: "int \<Rightarrow> slot_mask \<Rightarrow> render_state \<Rightarrow> bool \<Rightarrow> bool \<times> render_state" where
  "adjust_loop adjustment msk new_state nd =
     (if 0 \<le> get_lowest_on_bit msk
      then (if attrib (attributes new_state (nat (get_lowest_on_bit msk))) = None \<and> \<not> nd
            then (False, new_state)
            else adjust_loop adjustment (unset_bit (nat (get_lowest_on_bit msk)) msk)
                   (set_attribute new_state (nat (get_lowest_on_bit msk))
                      ((attributes new_state (nat (get_lowest_on_bit msk)))
                         \<lparr>override :=
                            max (int32_add
                                   (override (attributes new_state (nat (get_lowest_on_bit msk))))
                                   adjustment) 0\<rparr>))
                   nd)
      else (True, new_state))"
  by pat_completeness auto
termination
  by (relation "measure (\<lambda>(adjustment, msk, new_state, nd). length (on_bits msk))")
    (simp_all add: clear_bit_decreases)

declare adjust_loop.simps [simp del]

definition adjust_all_priorities ::
  "attrib_ops \<Rightarrow> world \<Rightarrow> state_ptr \<Rightarrow> int \<Rightarrow> (state_ptr \<times> world) option" where
  "adjust_all_priorities R w this adjustment =
     (case copy_render_state R w this of
        (new_state, w1) \<Rightarrow>
          (case adjust_loop adjustment (filled_slots (heap w1 this)) (heap w1 new_state)
                  (ndebug w) of
             (ok, s) \<Rightarrow>
               (if ok then return_new R (put w1 new_state s) new_state
                else Some (this, put w1 new_state s))))"

text \<open>
  \<open>init_states()\<close> creates the empty state and stores it in the table.
  Modelled from the spec: \<open>local_object()\<close> (of \<open>ReferenceCount\<close>) and
  \<open>cache_ref_only()\<close> are not among the sources at hand; the empty state "lives
  forever": \<open>local_object()\<close> gives it a reference count that never reaches zero, here
  10000000, and \<open>cache_ref_only()\<close> adds one to the cache reference count alone.
  \<open>_states.store\<close> asks for the hash of the key.
\<close>

definition init_states :: "attrib_ops \<Rightarrow> world \<Rightarrow> world" where
  "init_states R w =
     (case new_render_state w of
        (state, w1) \<Rightarrow>
          (put w1 state
             ((check_hash R (ndebug w) (heap w1 state))
                \<lparr>ref_count := 10000000,
                 cache_ref_count := cache_ref_count (heap w1 state) + 1,
                 saved_entry := int (length (states w1))\<rparr>))
            \<lparr>states := states w1 @ [state], empty_state := state\<rparr>)"


definition valid_state :: "attrib_ops \<Rightarrow> render_state \<Rightarrow> bool" where
  "valid_state R s \<longleftrightarrow>
     (\<forall>slot. bit (filled_slots s) slot \<longleftrightarrow> attrib (attributes s slot) \<noteq> None)
     \<and> \<not> bit (filled_slots s) 0
     \<and> (\<forall>slot. bit (filled_slots s) slot \<longrightarrow> slot < get_num_slots R)"

definition attrib_ops_ok :: "attrib_ops \<Rightarrow> bool" where
  "attrib_ops_ok R \<longleftrightarrow>
     (\<forall>a b. attrib_compare_to R a b = 0 \<longrightarrow> attrib_compare_to R b a = 0)
     \<and> (\<forall>a b c. attrib_compare_to R a b = 0 \<longrightarrow> attrib_compare_to R b c = 0
            \<longrightarrow> attrib_compare_to R a c = 0)
     \<and> (\<forall>a. attrib_compare_to R (do_uniquify R a) a = 0)
     \<and> get_num_slots R \<le> get_max_slots R \<and> get_max_slots R \<le> 32"

definition state_equiv :: "attrib_ops \<Rightarrow> render_state \<Rightarrow> render_state \<Rightarrow> bool" where
  "state_equiv R s t \<longleftrightarrow>
     filled_slots s = filled_slots t
     \<and> (\<forall>slot. bit (filled_slots s) slot \<longrightarrow>
            attribute_compare_to R (attributes s slot) (attributes t slot) = 0)"

definition table_ok :: "attrib_ops \<Rightarrow> world \<Rightarrow> bool" where
  "table_ok R w \<longleftrightarrow>
     (\<forall>k\<in>set (states w). valid_state R (heap w k) \<and> saved_entry (heap w k) \<noteq> -1
         \<and> k < next_ptr w)"

definition uniquified :: "attrib_ops \<Rightarrow> render_state \<Rightarrow> render_state" where
  "uniquified R s =
     s\<lparr>attributes := (\<lambda>slot. if bit (filled_slots s) slot
        then (attributes s slot)\<lparr>attrib := map_option (do_uniquify R) (attrib (attributes s slot))\<rparr>
        else attributes s slot)\<rparr>"

definition composed_state :: "attrib_ops \<Rightarrow> bool \<Rightarrow> render_state \<Rightarrow> render_state \<Rightarrow> render_state" where
  "composed_state R nd this other =
     blank_state
       \<lparr>filled_slots := filled_slots this OR filled_slots other,
        attributes := (\<lambda>slot. if bit (filled_slots this OR filled_slots other) slot
           then the (compose_slot R nd (attributes this slot) (attributes other slot))
           else default_attribute)\<rparr>"

definition inverted_state :: "attrib_ops \<Rightarrow> bool \<Rightarrow> render_state \<Rightarrow> render_state \<Rightarrow> render_state" where
  "inverted_state R nd this other =
     blank_state
       \<lparr>filled_slots := filled_slots this OR filled_slots other,
        attributes := (\<lambda>slot. if bit (filled_slots this OR filled_slots other) slot
           then the (invert_compose_slot R nd slot (attributes this slot) (attributes other slot))
           else default_attribute)\<rparr>"

definition set_attrib_state :: "attrib_ops \<Rightarrow> render_state \<Rightarrow> attrib_ptr \<Rightarrow> render_state" where
  "set_attrib_state R s a =
     blank_state
       \<lparr>attributes := (\<lambda>i. if i < get_num_slots R then attributes s i else default_attribute)
          (get_slot R a :=
             (if get_slot R a < get_num_slots R then attributes s (get_slot R a)
              else default_attribute)\<lparr>attrib := Some a\<rparr>),
        filled_slots := set_bit (get_slot R a) (filled_slots s)\<rparr>"

definition example_ops :: attrib_ops where
  "example_ops =
     \<lparr>get_slot = (\<lambda>a. a mod 4),
      attrib_compose = (\<lambda>a b. a + 4 * b),
      attrib_invert_compose = (\<lambda>a b. b + 4 * a),
      lower_attrib_can_override = (\<lambda>a. a mod 4 = 2),
      attrib_compare_to = (\<lambda>a b. int a - int b),
      do_uniquify = (\<lambda>a. a),
      get_num_slots = 4,
      get_max_slots = 32,
      get_slot_default = (\<lambda>slot. slot),
      pointer_add_hash = (\<lambda>h p. 31 * h + (case p of None \<Rightarrow> 0 | Some a \<Rightarrow> Suc a)),
      int_add_hash = (\<lambda>h i. 31 * h + nat i)\<rparr>"

definition slots_mask :: "nat list \<Rightarrow> slot_mask" where
  "slots_mask ns = foldr set_bit ns 0"

definition canonical_empty :: render_state where
  "canonical_empty = blank_state
     \<lparr>saved_entry := 0, ref_count := 10000000, cache_ref_count := 1, hash_known := True\<rparr>"

definition state_a :: render_state where
  "state_a = blank_state
     \<lparr>attributes := (\<lambda>slot. default_attribute)(1 := \<lparr>attrib = Some 1, override = 0\<rparr>),
      filled_slots := slots_mask [1], saved_entry := 1, ref_count := 1,
      hash := 62, hash_known := True\<rparr>"

definition state_b :: render_state where
  "state_b = blank_state
     \<lparr>attributes := (\<lambda>slot. default_attribute)
        (1 := \<lparr>attrib = Some 5, override = 1\<rparr>, 2 := \<lparr>attrib = Some 6, override = 3\<rparr>),
      filled_slots := slots_mask [1, 2], saved_entry := 2, ref_count := 1,
      hash := 179927, hash_known := True\<rparr>"

definition example_world :: world where
  "example_world =
     \<lparr>heap = (\<lambda>p. blank_state)(0 := canonical_empty, 1 := state_a, 2 := state_b),
      next_ptr = 3, freed = {}, states = [0, 1, 2], empty_state = 0,
      last_cycle_detect = 0, state_cache = True, uniquify_states = True,
      uniquify_attribs = True, garbage_collect_states = False, auto_break_cycles = True,
      paranoid_const = False, ndebug = False\<rparr>"

definition second_empty_world :: world where
  "second_empty_world =
     \<lparr>heap = (\<lambda>p. blank_state)(0 := canonical_empty, 1 := blank_state),
      next_ptr = 2, freed = {}, states = [0], empty_state = 0,
      last_cycle_detect = 0, state_cache = False, uniquify_states = True,
      uniquify_attribs = True, garbage_collect_states = False, auto_break_cycles = True,
      paranoid_const = False, ndebug = False\<rparr>"

definition start_world :: world where
  "start_world =
     \<lparr>heap = (\<lambda>p. blank_state), next_ptr = 0, freed = {}, states = [], empty_state = 0,
      last_cycle_detect = 0, state_cache = False, uniquify_states = True,
      uniquify_attribs = True, garbage_collect_states = False, auto_break_cycles = True,
      paranoid_const = False, ndebug = False\<rparr>"









text \<open>
  The state \<open>do_compose\<close> (or, inverted, \<open>do_invert_compose\<close>) builds from two
  well-formed states before it hands it to \<open>return_new\<close>.
\<close>

definition composition_of ::
  "bool \<Rightarrow> attrib_ops \<Rightarrow> bool \<Rightarrow> render_state \<Rightarrow> render_state \<Rightarrow> render_state" where
  "composition_of inverted R nd this other =
     (if inverted then inverted_state R nd this other else composed_state R nd this other)"

text \<open>Two state objects with the same attribute array and the same mask.\<close>

definition same_content :: "render_state \<Rightarrow> render_state \<Rightarrow> bool" where
  "same_content s t \<longleftrightarrow> attributes s = attributes t \<and> filled_slots s = filled_slots t"

text \<open>
  What the composition caches hold in a world that \<open>compose\<close> and
  \<open>invert_compose\<close> have filled: every result pointer recorded in a cache of \<open>p\<close>
  under the key \<open>q\<close> is an allocated, well-formed state that compares equal to the
  composition of \<open>p\<close> with \<open>q\<close>.
\<close>

definition coherent :: "attrib_ops \<Rightarrow> world \<Rightarrow> bool" where
  "coherent R w \<longleftrightarrow>
     (\<forall>inverted p q r. (q, Some r) \<in> set (cache_of inverted (heap w p)) \<longrightarrow>
        q < next_ptr w \<and> r < next_ptr w
        \<and> valid_state R (heap w p) \<and> valid_state R (heap w q) \<and> valid_state R (heap w r)
        \<and> state_equiv R (heap w r)
             (composition_of inverted R (ndebug w) (heap w p) (heap w q)))"

text \<open>
  Two worlds that differ at most in what the state objects hold beside their attributes
  and their table entry: the caches, the reference counts, the stamps and the hashes.
\<close>

definition only_caches_differ :: "world \<Rightarrow> world \<Rightarrow> bool" where
  "only_caches_differ w w' \<longleftrightarrow>
     next_ptr w' = next_ptr w \<and> ndebug w' = ndebug w \<and> states w' = states w
     \<and> state_cache w' = state_cache w \<and> uniquify_states w' = uniquify_states w
     \<and> empty_state w' = empty_state w
     \<and> (\<forall>p. same_content (heap w' p) (heap w p)
             \<and> saved_entry (heap w' p) = saved_entry (heap w p))"

text \<open>\<open>compose\<close> or, inverted, \<open>invert_compose\<close>.\<close>

definition composition ::
  "bool \<Rightarrow> attrib_ops \<Rightarrow> world \<Rightarrow> state_ptr \<Rightarrow> state_ptr \<Rightarrow> (state_ptr \<times> world) option" where
  "composition inverted R w this other =
     (if inverted then invert_compose R w this other else compose R w this other)"


text \<open>
  The world after \<open>state_a->compose(state_b)\<close> in \<open>example_world\<close>: the result
  is a new interned state at address 3, recorded in the forward cache of \<open>state_a\<close>,
  with the null entry for the reverse direction in the cache of \<open>state_b\<close>.
\<close>

definition state_c :: render_state where
  "state_c = blank_state
     \<lparr>attributes := (\<lambda>slot. default_attribute)
        (1 := \<lparr>attrib = Some 21, override = 1\<rparr>, 2 := \<lparr>attrib = Some 6, override = 3\<rparr>),
      filled_slots := slots_mask [1, 2], saved_entry := 3, ref_count := 1,
      cache_ref_count := 1, hash := 656583, hash_known := True\<rparr>"

definition cached_world :: world where
  "cached_world =
     example_world
       \<lparr>heap := (heap example_world)
          (1 := state_a\<lparr>composition_cache := [(2, Some 3)]\<rparr>,
           2 := state_b\<lparr>composition_cache := [(1, None)]\<rparr>,
           3 := state_c),
        next_ptr := 4, states := [0, 1, 2, 3]\<rparr>"

section \<open>Theorems about the page manager\<close>

lemma delete_explicit_page_loop_found:
  "page \<in> set rest \<Longrightarrow>
   delete_explicit_page_loop page seen rest = Some (seen @ remove1 page rest)"
  by (induction rest arbitrary: seen) auto

lemma delete_explicit_page_loop_missing:
  "page \<notin> set rest \<Longrightarrow> delete_explicit_page_loop page seen rest = None"
  by (induction rest arbitrary: seen) auto

text \<open>
  C8.  \<open>delete_explicit_page(page)\<close> returns true exactly when the page is in the
  explicit-page list; then the page (its first occurrence, the list holds each page
  once) is erased from the list, the page is deleted and the variable cache is
  invalidated.  When the page is not found the result is false and the manager, with
  its explicit-page list, is unchanged.
\<close>

theorem delete_explicit_page_spec:
  "delete_explicit_page m page =
     (if page \<in> set (explicit_pages m)
      then (True, m\<lparr>explicit_pages := remove1 page (explicit_pages m),
                     deleted_pages := insert page (deleted_pages m),
                     global_modified := Suc (global_modified m)\<rparr>)
      else (False, m))"
  by (simp add: delete_explicit_page_def invalidate_cache_def
      delete_explicit_page_loop_found delete_explicit_page_loop_missing)

lemma glob_loop_iff: "glob_loop E gs f \<longleftrightarrow> (\<exists>g\<in>set gs. glob_matches E g f)"
  by (induction gs) auto

lemma files_loop_iff:
  "files_loop E m fs \<longleftrightarrow>
     (\<exists>f\<in>set fs. \<exists>g\<in>set (prc_patterns m) \<union> set (prc_executable_patterns m).
        glob_matches E g f)"
  by (induction fs) (auto simp: glob_loop_iff)

lemma consider_matches_iff: "consider_matches E m dir \<longleftrightarrow> has_matching_file E m dir"
  by (simp add: consider_matches_def has_matching_file_def files_loop_iff split: option.splits)

lemma scan_up_from_upward_within:
  assumes shrink: "\<forall>d. get_dirname E d \<noteq> d \<longrightarrow> length (get_dirname E d) < length d"
  shows "length d \<le> n \<Longrightarrow>
    scan_up_from E m d suffix =
      Some (find (has_matching_file E m)
              (map (\<lambda>x. join_filename E x suffix) (upward_within E n d)))"
proof (induction n arbitrary: d)
  case 0
  then have "d = []" by simp
  with shrink have "get_dirname E d = d"
    by (metis length_0_conv less_nat_zero_code)
  then show ?case
    by (subst scan_up_from.simps) (simp add: consider_matches_iff)
next
  case (Suc n)
  show ?case
  proof (cases "d = get_dirname E d")
    case True
    then show ?thesis by (subst scan_up_from.simps) (simp add: consider_matches_iff)
  next
    case False
    with shrink have "length (get_dirname E d) < length d" by metis
    with Suc.prems have "length (get_dirname E d) \<le> n" by simp
    from Suc.IH [OF this] False show ?thesis
      by (subst scan_up_from.simps) (simp add: consider_matches_iff)
  qed
qed

lemma scan_up_from_upward:
  assumes "\<forall>d. get_dirname E d \<noteq> d \<longrightarrow> length (get_dirname E d) < length d"
  shows "scan_up_from E m d suffix =
      Some (find (has_matching_file E m) (map (\<lambda>x. join_filename E x suffix) (upward E d)))"
  unfolding upward_def by (rule scan_up_from_upward_within [OF assms]) simp

lemma find_append_first:
  "find P (xs @ ys) = (case find P xs of Some x \<Rightarrow> Some x | None \<Rightarrow> find P ys)"
  by (induction xs) auto

lemma upward_within_head: "upward_within E n d \<noteq> [] \<and> upward_within E n d ! 0 = d"
  by (cases n) simp_all

lemma upward_within_step:
  "Suc i < length (upward_within E n d) \<Longrightarrow>
   upward_within E n d ! Suc i = get_dirname E (upward_within E n d ! i)
   \<and> upward_within E n d ! i \<noteq> get_dirname E (upward_within E n d ! i)"
proof (induction n arbitrary: d i)
  case 0
  then show ?case by simp
next
  case (Suc n)
  show ?case
  proof (cases "d = get_dirname E d")
    case True
    with Suc.prems show ?thesis by simp
  next
    case False
    show ?thesis
    proof (cases i)
      case 0
      with False show ?thesis
        using upward_within_head [of E n "get_dirname E d"] by simp
    next
      case (Suc j)
      with Suc.prems False have "Suc j < length (upward_within E n (get_dirname E d))"
        by simp
      from Suc.IH [OF this] False Suc show ?thesis by simp
    qed
  qed
qed

lemma upward_within_last:
  assumes shrink: "\<forall>d. get_dirname E d \<noteq> d \<longrightarrow> length (get_dirname E d) < length d"
  shows "length d \<le> n \<Longrightarrow>
    get_dirname E (last (upward_within E n d)) = last (upward_within E n d)"
proof (induction n arbitrary: d)
  case 0
  then have "d = []" by simp
  with shrink have "get_dirname E d = d"
    by (metis length_0_conv less_nat_zero_code)
  then show ?case by simp
next
  case (Suc n)
  show ?case
  proof (cases "d = get_dirname E d")
    case True
    then show ?thesis by simp
  next
    case False
    with shrink have "length (get_dirname E d) < length d" by metis
    with Suc.prems have "length (get_dirname E d) \<le> n" by simp
    from Suc.IH [OF this] False show ?thesis
      by (cases n) simp_all
  qed
qed

text \<open>
  The walk \<open>upward E d\<close> is strictly upward: it starts at \<open>d\<close>, every further
  directory is the parent of the one before it and differs from it, and (when
  \<open>get_dirname\<close> shortens every name it changes) it ends at the directory that is its
  own parent, the root.
\<close>

lemma upward_strictly:
  assumes "\<forall>d. get_dirname E d \<noteq> d \<longrightarrow> length (get_dirname E d) < length d"
  shows "upward E d \<noteq> [] \<and> upward E d ! 0 = d
    \<and> (\<forall>i. Suc i < length (upward E d) \<longrightarrow>
          upward E d ! Suc i = get_dirname E (upward E d ! i)
          \<and> upward E d ! i \<noteq> get_dirname E (upward E d ! i))
    \<and> get_dirname E (last (upward E d)) = last (upward E d)"
  unfolding upward_def
  using upward_within_head upward_within_step upward_within_last [OF assms, of d "length d"]
  by simp

text \<open>
  C7.  Provided \<open>get_dirname\<close> shortens every name it changes (so that going upward
  reaches the root), \<open>scan_auto_prc_dir\<close> returns, and: a name without the
  \<open><auto>\<close> prefix is accepted unchanged; with the prefix, the answer is the first
  candidate that is a directory containing at least one file that matches a read
  pattern or an executable pattern, the candidates being taken strictly upward (a
  directory, then its parent, up to the root) first from the directory of the dtool
  library, \<open>ExecutionEnvironment::get_dtool_name()\<close>, and then from \<open>MAIN_DIR\<close>;
  when no candidate qualifies the answer is \<open>false\<close> and the caller leaves the
  directory out of the search path.  The executable's own directory is not a starting
  point.
\<close>

theorem scan_auto_prc_dir_spec:
  assumes "\<forall>d. get_dirname E d \<noteq> d \<longrightarrow> length (get_dirname E d) < length d"
  shows "scan_auto_prc_dir E m prc_dir = Some (auto_resolution E m prc_dir)
    \<and> append_scanned_directory E m search_path prc_dir =
        Some (if fst (auto_resolution E m prc_dir)
              then search_path @ [snd (auto_resolution E m prc_dir)] else search_path)"
proof -
  have scan: "scan_auto_prc_dir E m prc_dir = Some (auto_resolution E m prc_dir)"
    by (simp add: scan_auto_prc_dir_def auto_resolution_def resolution_from_def
        scan_up_from_upward [OF assms] find_append_first split: option.splits)
  then show ?thesis
    by (simp add: append_scanned_directory_def split: prod.splits)
qed

lemma example_env_shrinks:
  "\<forall>d. get_dirname example_env d \<noteq> d \<longrightarrow> length (get_dirname example_env d) < length d"
  by (simp add: example_env_def)

theorem scan_auto_prc_dir_witness:
  "scan_auto_prc_dir example_env example_manager ''<auto>etc'' = Some (True, ''/r/etc'')
   \<and> append_scanned_directory example_env example_manager [''/usr/etc''] ''<auto>etc''
       = Some [''/usr/etc'', ''/r/etc'']
   \<and> scan_auto_prc_dir example_env example_manager ''<auto>conf'' = Some (True, ''/home/me/conf'')
   \<and> scan_auto_prc_dir example_env example_manager ''<auto>doc'' = Some (False, ''<auto>doc'')
   \<and> append_scanned_directory example_env example_manager [''/usr/etc''] ''<auto>doc''
       = Some [''/usr/etc'']
   \<and> scan_auto_prc_dir example_env example_manager ''/opt/etc'' = Some (True, ''/opt/etc'')"
proof -
  have a: "auto_resolution example_env example_manager ''<auto>etc'' = (True, ''/r/etc'')"
    by code_simp
  have b: "auto_resolution example_env example_manager ''<auto>doc'' = (False, ''<auto>doc'')"
    by code_simp
  have c: "auto_resolution example_env example_manager ''/opt/etc'' = (True, ''/opt/etc'')"
    by code_simp
  have d: "auto_resolution example_env example_manager ''<auto>conf'' = (True, ''/home/me/conf'')"
    by code_simp
  show ?thesis
    using scan_auto_prc_dir_spec [OF example_env_shrinks, of example_manager "''<auto>etc''" "[''/usr/etc'']"]
      scan_auto_prc_dir_spec [OF example_env_shrinks, of example_manager "''<auto>doc''" "[''/usr/etc'']"]
      scan_auto_prc_dir_spec [OF example_env_shrinks, of example_manager "''/opt/etc''" "[]"]
      scan_auto_prc_dir_spec [OF example_env_shrinks, of example_manager "''<auto>conf''" "[]"]
    by (simp add: a b c d)
qed

lemma example_scan_code:
  "scan_up_from example_env example_manager ''/r/bin'' ''etc'' = Some (Some ''/r/etc'')"
  by (subst scan_up_from.simps, simp add: consider_matches_def example_env_def example_manager_def)+

theorem scan_auto_prc_dir_counterexample:
  "scan_auto_prc_dir example_env example_manager ''<auto>etc'' = Some (True, ''/r/etc'')
   \<and> executable_resolution example_env example_manager ''<auto>etc'' = (True, ''/opt/app/etc'')"
proof -
  have "get_dirname example_env (dtool_name example_env) = ''/r/bin''"
    by (simp add: example_env_def)
  then have "scan_auto_prc_dir example_env example_manager ''<auto>etc'' = Some (True, ''/r/etc'')"
    by (simp add: scan_auto_prc_dir_def example_scan_code)
  moreover have "executable_resolution example_env example_manager ''<auto>etc''
      = (True, ''/opt/app/etc'')"
    by code_simp
  ultimately show ?thesis by simp
qed

lemma lowest_on_bit_none: "\<not> 0 \<le> get_lowest_on_bit msk \<Longrightarrow> \<not> bit msk n"
proof -
  assume "\<not> 0 \<le> get_lowest_on_bit msk"
  then have "on_bits msk = []"
    by (simp add: get_lowest_on_bit_def split: list.splits)
  then have "n \<notin> set (on_bits msk)" by simp
  then show ?thesis by (simp add: on_bits_iff)
qed

lemma attribute_compare_to_refl: "attribute_compare_to R x x = 0"
  by (simp add: attribute_compare_to_def)

lemma attribute_compare_to_zero:
  "attribute_compare_to R x y = 0 \<longleftrightarrow>
     override x = override y \<and>
     (attrib x = attrib y \<or>
      (\<exists>a b. attrib x = Some a \<and> attrib y = Some b \<and> attrib_compare_to R a b = 0))"
  by (auto simp: attribute_compare_to_def split: option.splits)


lemma attribute_compare_to_trans:
  "attrib_ops_ok R \<Longrightarrow> attribute_compare_to R x y = 0 \<Longrightarrow> attribute_compare_to R y z = 0
   \<Longrightarrow> attribute_compare_to R x z = 0"
  unfolding attribute_compare_to_zero attrib_ops_ok_def
  by (metis option.inject)

lemma compare_to_loop_zero:
  "compare_to_loop R s t msk = 0 \<longleftrightarrow>
     (\<forall>slot. bit msk slot \<longrightarrow> attribute_compare_to R (attributes s slot) (attributes t slot) = 0)"
proof (induction R s t msk rule: compare_to_loop.induct)
  case (1 R this other msk)
  show ?case
  proof (cases "0 \<le> get_lowest_on_bit msk")
    case False
    then show ?thesis
      by (subst compare_to_loop.simps) (simp add: lowest_on_bit_none)
  next
    case True
    define n where "n = nat (get_lowest_on_bit msk)"
    have n_on: "bit msk n"
      unfolding n_def by (rule lowest_on_bit_is_on [OF True])
    show ?thesis
    proof (cases "attribute_compare_to R (attributes this n) (attributes other n) = 0")
      case False
      with True n_on show ?thesis
        by (subst compare_to_loop.simps) (auto simp: n_def)
    next
      case zero: True
      have "compare_to_loop R this other msk = compare_to_loop R this other (unset_bit n msk)"
        using True zero by (subst compare_to_loop.simps) (simp add: n_def)
      also have "\<dots> = 0 \<longleftrightarrow>
          (\<forall>slot. bit (unset_bit n msk) slot \<longrightarrow>
             attribute_compare_to R (attributes this slot) (attributes other slot) = 0)"
        using "1.IH" [OF True] zero by (simp add: n_def)
      also have "\<dots> \<longleftrightarrow>
          (\<forall>slot. bit msk slot \<longrightarrow>
             attribute_compare_to R (attributes this slot) (attributes other slot) = 0)"
        using zero by (auto simp: bit_unset_bit_iff)
      finally show ?thesis .
    qed
  qed
qed

lemma compare_to_zero:
  "compare_to R s t = 0 \<longleftrightarrow>
     (\<forall>slot. bit (filled_slots s) slot \<or> bit (filled_slots t) slot \<longrightarrow>
        attribute_compare_to R (attributes s slot) (attributes t slot) = 0)"
  by (simp add: compare_to_def compare_to_loop_zero bit_or_iff)

lemma compare_to_equiv:
  assumes "valid_state R s" "valid_state R t"
  shows "compare_to R s t = 0 \<longleftrightarrow> state_equiv R s t"
proof
  assume z: "compare_to R s t = 0"
  have "bit (filled_slots s) n \<longleftrightarrow> bit (filled_slots t) n" for n
    using z assms unfolding compare_to_zero valid_state_def attribute_compare_to_zero
    by (metis option.distinct(1))
  then have "filled_slots s = filled_slots t" by (rule bit_eqI)
  with z show "state_equiv R s t"
    by (simp add: state_equiv_def compare_to_zero)
next
  assume "state_equiv R s t"
  then show "compare_to R s t = 0"
    by (simp add: state_equiv_def compare_to_zero)
qed

lemma state_equiv_refl: "state_equiv R s s"
  by (simp add: state_equiv_def attribute_compare_to_refl)


lemma state_equiv_trans:
  "attrib_ops_ok R \<Longrightarrow> state_equiv R s t \<Longrightarrow> state_equiv R t u \<Longrightarrow> state_equiv R s u"
  unfolding state_equiv_def by (metis attribute_compare_to_trans)

lemma bit_set_bit_mask:
  "bit (set_bit m (w :: slot_mask)) n \<longleftrightarrow> bit w n \<or> (m = n \<and> n < 32)"
  by (simp add: bit_set_bit_iff)

lemma validate_loop_bit:
  "bit (validate_loop s slots msk) n \<longleftrightarrow>
     bit msk n \<or> (n \<in> set slots \<and> attrib (attributes s n) \<noteq> None \<and> n < 32)"
proof (induction slots arbitrary: msk)
  case Nil
  show ?case by simp
next
  case (Cons slot slots)
  show ?case
  proof (cases "attrib (attributes s slot) = None")
    case True
    then show ?thesis
      using Cons.IH [of msk] by (cases "n = slot") simp_all
  next
    case False
    then show ?thesis
      using Cons.IH [of "set_bit slot msk"]
      by (cases "n = slot") (simp_all add: bit_set_bit_mask, blast)
  qed
qed

lemma valid_state_validate:
  assumes "attrib_ops_ok R" "valid_state R s"
  shows "validate_filled_slots R s"
proof -
  have "bit (validate_loop s [1..<get_max_slots R] 0) n \<longleftrightarrow> bit (filled_slots s) n" for n
  proof (cases "bit (filled_slots s) n")
    case True
    with assms have "n < get_num_slots R" "attrib (attributes s n) \<noteq> None" "n \<noteq> 0"
      unfolding valid_state_def by metis+
    moreover from assms have "get_num_slots R \<le> get_max_slots R"
      by (simp add: attrib_ops_ok_def)
    moreover from True have "n < 32"
      using bit_imp_le_length [of "filled_slots s" n] by simp
    ultimately show ?thesis using True by (simp add: validate_loop_bit)
  next
    case False
    with assms have "attrib (attributes s n) = None" by (simp add: valid_state_def)
    with False show ?thesis by (simp add: validate_loop_bit)
  qed
  then have "validate_loop s [1..<get_max_slots R] 0 = filled_slots s"
    by (rule bit_eqI)
  then show ?thesis
    by (simp add: validate_filled_slots_def)
qed

lemma do_compose_loop_result:
  assumes "\<forall>slot. bit msk slot \<longrightarrow>
     compose_slot R nd (attributes this slot) (attributes other slot) \<noteq> None"
  shows "do_compose_loop R nd this other msk ns =
     (True, ns\<lparr>attributes := (\<lambda>slot. if bit msk slot
        then the (compose_slot R nd (attributes this slot) (attributes other slot))
        else attributes ns slot)\<rparr>)"
  using assms
proof (induction R nd this other msk ns rule: do_compose_loop.induct)
  case (1 R nd this other msk ns)
  show ?case
  proof (cases "0 \<le> get_lowest_on_bit msk")
    case False
    then show ?thesis
      by (subst do_compose_loop.simps) (simp add: lowest_on_bit_none)
  next
    case True
    then obtain n where n: "get_lowest_on_bit msk = int n"
      using nonneg_int_cases by blast
    have n_on: "bit msk n"
      using lowest_on_bit_is_on [OF True] by (simp add: n)
    with "1.prems" obtain r where
      r: "compose_slot R nd (attributes this n) (attributes other n) = Some r"
      by auto
    have rest: "\<forall>slot. bit (unset_bit n msk) slot \<longrightarrow>
        compose_slot R nd (attributes this slot) (attributes other slot) \<noteq> None"
      using "1.prems" by (simp add: bit_unset_bit_iff)
    have attrs: "(\<lambda>slot. if bit (unset_bit n msk) slot
        then the (compose_slot R nd (attributes this slot) (attributes other slot))
        else attributes (set_attribute ns n r) slot)
      = (\<lambda>slot. if bit msk slot
        then the (compose_slot R nd (attributes this slot) (attributes other slot))
        else attributes ns slot)"
      using n_on r by (intro ext) (simp add: set_attribute_def bit_unset_bit_iff)
    have "do_compose_loop R nd this other msk ns =
        do_compose_loop R nd this other (unset_bit n msk) (set_attribute ns n r)"
      using True r by (subst do_compose_loop.simps) (simp add: n)
    also have "\<dots> = (True, (set_attribute ns n r)\<lparr>attributes := (\<lambda>slot.
        if bit (unset_bit n msk) slot
        then the (compose_slot R nd (attributes this slot) (attributes other slot))
        else attributes (set_attribute ns n r) slot)\<rparr>)"
      using "1.IH" [OF True, of r, unfolded n nat_int] r rest by (simp add: n)
    also have "\<dots> = (True, ns\<lparr>attributes := (\<lambda>slot. if bit msk slot
        then the (compose_slot R nd (attributes this slot) (attributes other slot))
        else attributes ns slot)\<rparr>)"
      unfolding attrs by (simp add: set_attribute_def)
    finally show ?thesis .
  qed
qed

lemma do_invert_compose_loop_result:
  assumes "\<forall>slot. bit msk slot \<longrightarrow>
     invert_compose_slot R nd slot (attributes this slot) (attributes other slot) \<noteq> None"
  shows "do_invert_compose_loop R nd this other msk ns =
     (True, ns\<lparr>attributes := (\<lambda>slot. if bit msk slot
        then the (invert_compose_slot R nd slot (attributes this slot) (attributes other slot))
        else attributes ns slot)\<rparr>)"
  using assms
proof (induction R nd this other msk ns rule: do_invert_compose_loop.induct)
  case (1 R nd this other msk ns)
  show ?case
  proof (cases "0 \<le> get_lowest_on_bit msk")
    case False
    then show ?thesis
      by (subst do_invert_compose_loop.simps) (simp add: lowest_on_bit_none)
  next
    case True
    then obtain n where n: "get_lowest_on_bit msk = int n"
      using nonneg_int_cases by blast
    have n_on: "bit msk n"
      using lowest_on_bit_is_on [OF True] by (simp add: n)
    with "1.prems" obtain r where
      r: "invert_compose_slot R nd n (attributes this n) (attributes other n) = Some r"
      by auto
    have rest: "\<forall>slot. bit (unset_bit n msk) slot \<longrightarrow>
        invert_compose_slot R nd slot (attributes this slot) (attributes other slot) \<noteq> None"
      using "1.prems" by (simp add: bit_unset_bit_iff)
    have attrs: "(\<lambda>slot. if bit (unset_bit n msk) slot
        then the (invert_compose_slot R nd slot (attributes this slot) (attributes other slot))
        else attributes (set_attribute ns n r) slot)
      = (\<lambda>slot. if bit msk slot
        then the (invert_compose_slot R nd slot (attributes this slot) (attributes other slot))
        else attributes ns slot)"
      using n_on r by (intro ext) (simp add: set_attribute_def bit_unset_bit_iff)
    have "do_invert_compose_loop R nd this other msk ns =
        do_invert_compose_loop R nd this other (unset_bit n msk) (set_attribute ns n r)"
      using True r by (subst do_invert_compose_loop.simps) (simp add: n)
    also have "\<dots> = (True, (set_attribute ns n r)\<lparr>attributes := (\<lambda>slot.
        if bit (unset_bit n msk) slot
        then the (invert_compose_slot R nd slot (attributes this slot) (attributes other slot))
        else attributes (set_attribute ns n r) slot)\<rparr>)"
      using "1.IH" [OF True, of r, unfolded n nat_int] r rest by (simp add: n)
    also have "\<dots> = (True, ns\<lparr>attributes := (\<lambda>slot. if bit msk slot
        then the (invert_compose_slot R nd slot (attributes this slot) (attributes other slot))
        else attributes ns slot)\<rparr>)"
      unfolding attrs by (simp add: set_attribute_def)
    finally show ?thesis .
  qed
qed

lemma uniquify_loop_result:
  assumes "\<forall>slot. bit msk slot \<longrightarrow> attrib (attributes s slot) \<noteq> None"
  shows "uniquify_loop R s msk =
     Some (s\<lparr>attributes := (\<lambda>slot. if bit msk slot
        then (attributes s slot)\<lparr>attrib := map_option (do_uniquify R) (attrib (attributes s slot))\<rparr>
        else attributes s slot)\<rparr>)"
  using assms
proof (induction R s msk rule: uniquify_loop.induct)
  case (1 R s msk)
  show ?case
  proof (cases "0 \<le> get_lowest_on_bit msk")
    case False
    then show ?thesis
      by (subst uniquify_loop.simps) (simp add: lowest_on_bit_none)
  next
    case True
    then obtain n where n: "get_lowest_on_bit msk = int n"
      using nonneg_int_cases by blast
    have n_on: "bit msk n"
      using lowest_on_bit_is_on [OF True] by (simp add: n)
    with "1.prems" obtain a where a: "attrib (attributes s n) = Some a"
      by auto
    define s1 where "s1 = set_attribute s n ((attributes s n)\<lparr>attrib := Some (do_uniquify R a)\<rparr>)"
    have rest: "\<forall>slot. bit (unset_bit n msk) slot \<longrightarrow> attrib (attributes s1 slot) \<noteq> None"
      using "1.prems" by (simp add: bit_unset_bit_iff s1_def set_attribute_def)
    have attrs: "(\<lambda>slot. if bit (unset_bit n msk) slot
        then (attributes s1 slot)\<lparr>attrib := map_option (do_uniquify R) (attrib (attributes s1 slot))\<rparr>
        else attributes s1 slot)
      = (\<lambda>slot. if bit msk slot
        then (attributes s slot)\<lparr>attrib := map_option (do_uniquify R) (attrib (attributes s slot))\<rparr>
        else attributes s slot)"
      using n_on a by (intro ext) (simp add: s1_def set_attribute_def bit_unset_bit_iff)
    have "uniquify_loop R s msk = uniquify_loop R s1 (unset_bit n msk)"
      using True a by (subst uniquify_loop.simps) (simp add: n s1_def)
    also have "\<dots> = Some (s1\<lparr>attributes := (\<lambda>slot. if bit (unset_bit n msk) slot
        then (attributes s1 slot)\<lparr>attrib := map_option (do_uniquify R) (attrib (attributes s1 slot))\<rparr>
        else attributes s1 slot)\<rparr>)"
      using "1.IH" [OF True, of a, unfolded n nat_int, folded s1_def] a rest by simp
    also have "\<dots> = Some (s\<lparr>attributes := (\<lambda>slot. if bit msk slot
        then (attributes s slot)\<lparr>attrib := map_option (do_uniquify R) (attrib (attributes s slot))\<rparr>
        else attributes s slot)\<rparr>)"
      unfolding attrs by (simp add: s1_def set_attribute_def)
    finally show ?thesis .
  qed
qed

lemma uniquified_equiv:
  assumes "attrib_ops_ok R"
  shows "state_equiv R (uniquified R s) s"
proof -
  from assms have uniq: "attrib_compare_to R (do_uniquify R a) a = 0" for a
    by (simp add: attrib_ops_ok_def)
  have "attribute_compare_to R
      ((attributes s slot)\<lparr>attrib := map_option (do_uniquify R) (attrib (attributes s slot))\<rparr>)
      (attributes s slot) = 0" for slot
    using uniq unfolding attribute_compare_to_zero
    by (cases "attrib (attributes s slot)") simp_all
  then show ?thesis
    by (simp add: state_equiv_def uniquified_def)
qed

lemma uniquified_valid:
  assumes "valid_state R s"
  shows "valid_state R (uniquified R s)"
proof -
  have "attrib (attributes (uniquified R s) slot) \<noteq> None \<longleftrightarrow> attrib (attributes s slot) \<noteq> None"
    for slot
    by (simp add: uniquified_def)
  moreover have "filled_slots (uniquified R s) = filled_slots s"
    by (simp add: uniquified_def)
  ultimately show ?thesis
    using assms unfolding valid_state_def by metis
qed

lemma uniquify_loop_valid:
  "valid_state R s \<Longrightarrow> uniquify_loop R s (filled_slots s) = Some (uniquified R s)"
  unfolding uniquified_def by (rule uniquify_loop_result) (simp add: valid_state_def)

lemma find_state_Some:
  "find_state R w ks state = Some k \<Longrightarrow>
     k \<in> set ks \<and> (k = state \<or> compare_to R (heap w k) (heap w state) = 0)
     \<and> get_hash R (ndebug w) (heap w k) = get_hash R (ndebug w) (heap w state)"
  by (induction ks) (auto split: if_splits)


lemma do_calc_hash_fields:
  "attributes (do_calc_hash R nd s) = attributes s"
  "filled_slots (do_calc_hash R nd s) = filled_slots s"
  "saved_entry (do_calc_hash R nd s) = saved_entry s"
  "ref_count (do_calc_hash R nd s) = ref_count s"
  "cache_ref_count (do_calc_hash R nd s) = cache_ref_count s"
  "composition_cache (do_calc_hash R nd s) = composition_cache s"
  "invert_composition_cache (do_calc_hash R nd s) = invert_composition_cache s"
  "cycle_detect (do_calc_hash R nd s) = cycle_detect s"
  by (simp_all add: do_calc_hash_def split: prod.splits)

lemma check_hash_fields:
  "attributes (check_hash R nd s) = attributes s"
  "filled_slots (check_hash R nd s) = filled_slots s"
  "saved_entry (check_hash R nd s) = saved_entry s"
  "ref_count (check_hash R nd s) = ref_count s"
  "cache_ref_count (check_hash R nd s) = cache_ref_count s"
  "composition_cache (check_hash R nd s) = composition_cache s"
  "invert_composition_cache (check_hash R nd s) = invert_composition_cache s"
  "cycle_detect (check_hash R nd s) = cycle_detect s"
  by (simp_all add: check_hash_def do_calc_hash_fields)

lemma check_hash_valid: "valid_state R (check_hash R' nd s) \<longleftrightarrow> valid_state R s"
  by (simp add: valid_state_def check_hash_fields)

lemma check_hash_equiv: "state_equiv R (check_hash R' nd s) t \<longleftrightarrow> state_equiv R s t"
  by (simp add: state_equiv_def check_hash_fields)

lemma return_unique_skip:
  assumes "\<not> state_cache w \<or> (\<not> ndebug w \<and> paranoid_const w \<and> \<not> validate_states R w)
    \<or> saved_entry (heap w state) \<noteq> -1"
  shows "return_unique R w state = Some (state, w)"
  using assms by (auto simp: return_unique_def)

lemma return_unique_search:
  assumes "\<not> (\<not> state_cache w \<or> (\<not> ndebug w \<and> paranoid_const w \<and> \<not> validate_states R w)
    \<or> saved_entry (heap w state) \<noteq> -1)"
    and "(if \<not> uniquify_attribs w \<and> \<not> is_empty (heap w state)
      then uniquify_loop R (heap w state) (filled_slots (heap w state))
      else Some (heap w state)) = Some u"
    and "s = check_hash R (ndebug w) u"
  shows "return_unique R w state =
    (case find_state R (put w state s) (states w) state of
       Some k \<Rightarrow>
         Some (k, if ref_count s = 0 then delete_state (put w state s) state
                  else put w state s)
     | None \<Rightarrow>
         Some (state,
           (put (if garbage_collect_states w then cache_ref (put w state s) state
                 else put w state s) state
              ((heap (if garbage_collect_states w then cache_ref (put w state s) state
                      else put w state s) state)
                 \<lparr>saved_entry := int (length (states w))\<rparr>))
             \<lparr>states := states w @ [state]\<rparr>))"
proof -
  from assms(1) have a: "\<not> \<not> state_cache w"
    and b: "\<not> (\<not> ndebug w \<and> paranoid_const w \<and> \<not> validate_states R w)"
    and c: "\<not> saved_entry (heap w state) \<noteq> -1"
    by auto
  show ?thesis
    unfolding return_unique_def
    by (simp only: if_not_P [OF a] if_not_P [OF b] if_not_P [OF c] assms(2) option.case
        Let_def assms(3) [symmetric])
qed

lemma return_unique_equiv:
  assumes ops: "attrib_ops_ok R" and tab: "table_ok R w"
    and val: "valid_state R (heap w state)"
  shows "\<exists>r w'. return_unique R w state = Some (r, w')
     \<and> state_equiv R (heap w' r) (heap w state)"
proof (cases "\<not> state_cache w \<or> (\<not> ndebug w \<and> paranoid_const w \<and> \<not> validate_states R w)
    \<or> saved_entry (heap w state) \<noteq> -1")
  case True
  then have "return_unique R w state = Some (state, w)"
    by (auto simp: return_unique_def)
  then show ?thesis by (simp add: state_equiv_refl)
next
  case False
  define u where "u = (if \<not> uniquify_attribs w \<and> \<not> is_empty (heap w state)
      then uniquified R (heap w state) else heap w state)"
  define s where "s = check_hash R (ndebug w) u"
  have us: "(if \<not> uniquify_attribs w \<and> \<not> is_empty (heap w state)
      then uniquify_loop R (heap w state) (filled_slots (heap w state))
      else Some (heap w state)) = Some u"
    using val by (simp add: u_def uniquify_loop_valid)
  have s_equiv: "state_equiv R s (heap w state)"
    using ops by (simp add: s_def u_def check_hash_equiv uniquified_equiv state_equiv_refl)
  have s_valid: "valid_state R s"
    using val by (simp add: s_def u_def check_hash_valid uniquified_valid)
  show ?thesis
  proof (cases "find_state R (put w state s) (states w) state")
    case None
    define w1 where "w1 = (if garbage_collect_states w then cache_ref (put w state s) state
                             else put w state s)"
    define w' where "w' = (put w1 state ((heap w1 state)\<lparr>saved_entry := int (length (states w))\<rparr>))
                          \<lparr>states := states w @ [state]\<rparr>"
    have ru: "return_unique R w state = Some (state, w')"
      unfolding return_unique_search [OF False us s_def] w'_def w1_def
      using None by simp
    have "filled_slots (heap w' state) = filled_slots s" "attributes (heap w' state) = attributes s"
      by (simp_all add: w'_def w1_def put_def cache_ref_def)
    then have "state_equiv R (heap w' state) (heap w state)"
      using s_equiv by (simp add: state_equiv_def)
    with ru show ?thesis by blast
  next
    case (Some k)
    from find_state_Some [OF Some]
    have k: "k \<in> set (states w)"
      and eq: "k = state \<or> compare_to R (heap (put w state s) k) (heap (put w state s) state) = 0"
      by simp_all
    from tab k False have "k \<noteq> state" and k_valid: "valid_state R (heap w k)"
      by (auto simp: table_ok_def)
    with eq have "compare_to R (heap w k) s = 0"
      by (simp add: put_def)
    with k_valid s_valid have "state_equiv R (heap w k) s"
      by (simp add: compare_to_equiv)
    with s_equiv ops have equiv: "state_equiv R (heap w k) (heap w state)"
      by (blast intro: state_equiv_trans)
    define w' where "w' = (if ref_count s = 0 then delete_state (put w state s) state
                           else put w state s)"
    have ru: "return_unique R w state = Some (k, w')"
      unfolding return_unique_search [OF False us s_def] w'_def
      using Some by simp
    have "heap w' k = heap w k"
      using \<open>k \<noteq> state\<close> by (simp add: w'_def put_def delete_state_def)
    with equiv ru show ?thesis by auto
  qed
qed

lemma valid_state_filled:
  "valid_state R s \<Longrightarrow> bit (filled_slots s) slot \<longleftrightarrow> attrib (attributes s slot) \<noteq> None"
  unfolding valid_state_def by blast

lemma valid_state_zero: "valid_state R s \<Longrightarrow> \<not> bit (filled_slots s) 0"
  unfolding valid_state_def by blast

lemma valid_state_slot:
  "valid_state R s \<Longrightarrow> bit (filled_slots s) slot \<Longrightarrow> slot < get_num_slots R"
  unfolding valid_state_def by blast

lemma clear_slot_zero_valid:
  assumes "valid_state R s"
  shows "s\<lparr>attributes := (attributes s)(0 := (attributes s 0)\<lparr>attrib := None\<rparr>),
           filled_slots := unset_bit 0 (filled_slots s)\<rparr> = s"
proof -
  from assms have z: "\<not> bit (filled_slots s) 0" and "attrib (attributes s 0) = None"
    unfolding valid_state_def by metis+
  then have "(attributes s 0)\<lparr>attrib := None\<rparr> = attributes s 0"
    by simp
  then have a: "(attributes s)(0 := (attributes s 0)\<lparr>attrib := None\<rparr>) = attributes s"
    by simp
  have "bit (unset_bit 0 (filled_slots s)) n \<longleftrightarrow> bit (filled_slots s) n" for n
    using z by (cases "n = 0") (simp_all add: bit_unset_bit_iff)
  then have b: "unset_bit 0 (filled_slots s) = filled_slots s"
    by (rule bit_eqI)
  show ?thesis unfolding a b by simp
qed

lemma put_same: "put w p (heap w p) = w"
  by (simp add: put_def)

lemma return_new_valid:
  assumes "attrib_ops_ok R" "valid_state R (heap w state)"
  shows "return_new R w state =
     (if \<not> uniquify_states w \<and> \<not> is_empty (heap w state) then Some (state, w)
      else return_unique R w state)"
  using valid_state_validate [OF assms]
  unfolding return_new_def clear_slot_zero_valid [OF assms(2)]
  by (simp add: Let_def put_same)

lemma return_new_equiv:
  assumes ops: "attrib_ops_ok R" and tab: "table_ok R w"
    and val: "valid_state R (heap w state)"
  shows "\<exists>r w'. return_new R w state = Some (r, w')
     \<and> state_equiv R (heap w' r) (heap w state)
     \<and> (\<not> state_cache w \<longrightarrow> r = state \<and> w' = w)"
proof (cases "\<not> state_cache w \<or> (\<not> uniquify_states w \<and> \<not> is_empty (heap w state))")
  case True
  then have "return_new R w state = Some (state, w)"
    unfolding return_new_valid [OF ops val] by (auto simp: return_unique_def)
  then show ?thesis by (simp add: state_equiv_refl)
next
  case False
  then have "return_new R w state = return_unique R w state"
    unfolding return_new_valid [OF ops val] by auto
  with return_unique_equiv [OF ops tab val] False show ?thesis by auto
qed

lemma compose_slot_valid:
  assumes "attrib a \<noteq> None \<or> attrib b \<noteq> None"
  shows "\<exists>r. compose_slot R nd a b = Some r \<and> attrib r \<noteq> None"
  using assms by (auto simp: compose_slot_def split: option.splits)

lemma composed_state_valid:
  assumes "valid_state R this" "valid_state R other"
  shows "valid_state R (composed_state R nd this other)"
proof -
  have 1: "attrib (attributes (composed_state R nd this other) slot) \<noteq> None
      \<longleftrightarrow> bit (filled_slots this OR filled_slots other) slot" for slot
  proof (cases "bit (filled_slots this OR filled_slots other) slot")
    case True
    with assms have "attrib (attributes this slot) \<noteq> None \<or> attrib (attributes other slot) \<noteq> None"
      unfolding bit_or_iff by (simp add: valid_state_filled)
    from compose_slot_valid [OF this, of R nd] True show ?thesis
      by (auto simp: composed_state_def)
  next
    case False
    then show ?thesis by (simp add: composed_state_def default_attribute_def)
  qed
  have 2: "\<not> bit (filled_slots this OR filled_slots other) 0"
    using assms by (simp add: valid_state_zero bit_or_iff)
  have 3: "bit (filled_slots this OR filled_slots other) slot \<Longrightarrow> slot < get_num_slots R" for slot
    using assms unfolding bit_or_iff by (blast dest: valid_state_slot)
  have f: "filled_slots (composed_state R nd this other) = filled_slots this OR filled_slots other"
    by (simp add: composed_state_def)
  show ?thesis
    unfolding valid_state_def f using 1 2 3 by simp
qed

lemma do_compose_loop_valid:
  assumes "valid_state R this" "valid_state R other"
  shows "do_compose_loop R nd this other (filled_slots this OR filled_slots other)
      (blank_state\<lparr>filled_slots := filled_slots this OR filled_slots other\<rparr>)
    = (True, composed_state R nd this other)"
proof -
  have "\<forall>slot. bit (filled_slots this OR filled_slots other) slot \<longrightarrow>
      compose_slot R nd (attributes this slot) (attributes other slot) \<noteq> None"
  proof (intro allI impI)
    fix slot assume "bit (filled_slots this OR filled_slots other) slot"
    with assms have "attrib (attributes this slot) \<noteq> None \<or> attrib (attributes other slot) \<noteq> None"
      unfolding bit_or_iff by (simp add: valid_state_filled)
    from compose_slot_valid [OF this, of R nd]
    show "compose_slot R nd (attributes this slot) (attributes other slot) \<noteq> None" by auto
  qed
  from do_compose_loop_result [OF this] show ?thesis
    by (simp add: composed_state_def blank_state_def cong: if_cong)
qed

lemma table_ok_alloc:
  assumes "table_ok R w"
  shows "table_ok R (w\<lparr>next_ptr := Suc (next_ptr w), heap := (heap w)(next_ptr w := s)\<rparr>)"
  using assms by (auto simp: table_ok_def)

lemma do_compose_equiv:
  assumes ops: "attrib_ops_ok R" and tab: "table_ok R w"
    and a: "this < next_ptr w" "valid_state R (heap w this)"
    and b: "other < next_ptr w" "valid_state R (heap w other)"
  shows "\<exists>r w'. do_compose R w this other = Some (r, w')
     \<and> state_equiv R (heap w' r) (composed_state R (ndebug w) (heap w this) (heap w other))
     \<and> (\<not> state_cache w \<longrightarrow>
          r = next_ptr w \<and>
          heap w' r = composed_state R (ndebug w) (heap w this) (heap w other))"
proof -
  define ns where "ns = composed_state R (ndebug w) (heap w this) (heap w other)"
  define w2 where "w2 = w\<lparr>next_ptr := Suc (next_ptr w), heap := (heap w)(next_ptr w := ns)\<rparr>"
  have dc: "do_compose R w this other = return_new R w2 (next_ptr w)"
    using a(1) b(1) do_compose_loop_valid [OF a(2) b(2), of "ndebug w"]
    by (simp add: do_compose_def new_render_state_def put_def w2_def ns_def)
  have h: "heap w2 (next_ptr w) = ns" "state_cache w2 = state_cache w"
    by (simp_all add: w2_def put_def)
  have "valid_state R (heap w2 (next_ptr w))"
    unfolding h ns_def by (rule composed_state_valid [OF a(2) b(2)])
  moreover have "table_ok R w2"
    unfolding w2_def by (rule table_ok_alloc [OF tab])
  ultimately show ?thesis
    using return_new_equiv [OF ops, of w2 "next_ptr w"] h unfolding dc ns_def by auto
qed

lemma invert_compose_slot_valid:
  assumes "attrib a \<noteq> None \<or> attrib b \<noteq> None"
  shows "\<exists>r. invert_compose_slot R nd slot a b = Some r \<and> attrib r \<noteq> None"
  using assms by (auto simp: invert_compose_slot_def split: option.splits)

lemma inverted_state_valid:
  assumes "valid_state R this" "valid_state R other"
  shows "valid_state R (inverted_state R nd this other)"
proof -
  have 1: "attrib (attributes (inverted_state R nd this other) slot) \<noteq> None
      \<longleftrightarrow> bit (filled_slots this OR filled_slots other) slot" for slot
  proof (cases "bit (filled_slots this OR filled_slots other) slot")
    case True
    with assms have "attrib (attributes this slot) \<noteq> None \<or> attrib (attributes other slot) \<noteq> None"
      unfolding bit_or_iff by (simp add: valid_state_filled)
    from invert_compose_slot_valid [OF this, of R nd slot] True show ?thesis
      by (auto simp: inverted_state_def)
  next
    case False
    then show ?thesis by (simp add: inverted_state_def default_attribute_def)
  qed
  have 2: "\<not> bit (filled_slots this OR filled_slots other) 0"
    using assms by (simp add: valid_state_zero bit_or_iff)
  have 3: "bit (filled_slots this OR filled_slots other) slot \<Longrightarrow> slot < get_num_slots R" for slot
    using assms unfolding bit_or_iff by (blast dest: valid_state_slot)
  have f: "filled_slots (inverted_state R nd this other) = filled_slots this OR filled_slots other"
    by (simp add: inverted_state_def)
  show ?thesis
    unfolding valid_state_def f using 1 2 3 by simp
qed

lemma do_invert_compose_loop_valid:
  assumes "valid_state R this" "valid_state R other"
  shows "do_invert_compose_loop R nd this other (filled_slots this OR filled_slots other)
      (blank_state\<lparr>filled_slots := filled_slots this OR filled_slots other\<rparr>)
    = (True, inverted_state R nd this other)"
proof -
  have "\<forall>slot. bit (filled_slots this OR filled_slots other) slot \<longrightarrow>
      invert_compose_slot R nd slot (attributes this slot) (attributes other slot) \<noteq> None"
  proof (intro allI impI)
    fix slot assume "bit (filled_slots this OR filled_slots other) slot"
    with assms have "attrib (attributes this slot) \<noteq> None \<or> attrib (attributes other slot) \<noteq> None"
      unfolding bit_or_iff by (simp add: valid_state_filled)
    from invert_compose_slot_valid [OF this, of R nd slot]
    show "invert_compose_slot R nd slot (attributes this slot) (attributes other slot) \<noteq> None"
      by auto
  qed
  from do_invert_compose_loop_result [OF this] show ?thesis
    by (simp add: inverted_state_def blank_state_def cong: if_cong)
qed

lemma do_invert_compose_equiv:
  assumes ops: "attrib_ops_ok R" and tab: "table_ok R w"
    and a: "this < next_ptr w" "valid_state R (heap w this)"
    and b: "other < next_ptr w" "valid_state R (heap w other)"
  shows "\<exists>r w'. do_invert_compose R w this other = Some (r, w')
     \<and> state_equiv R (heap w' r) (inverted_state R (ndebug w) (heap w this) (heap w other))
     \<and> (\<not> state_cache w \<longrightarrow>
          r = next_ptr w \<and>
          heap w' r = inverted_state R (ndebug w) (heap w this) (heap w other))"
proof -
  define ns where "ns = inverted_state R (ndebug w) (heap w this) (heap w other)"
  define w2 where "w2 = w\<lparr>next_ptr := Suc (next_ptr w), heap := (heap w)(next_ptr w := ns)\<rparr>"
  have dc: "do_invert_compose R w this other = return_new R w2 (next_ptr w)"
    using a(1) b(1) do_invert_compose_loop_valid [OF a(2) b(2), of "ndebug w"]
    by (simp add: do_invert_compose_def new_render_state_def put_def w2_def ns_def)
  have h: "heap w2 (next_ptr w) = ns" "state_cache w2 = state_cache w"
    by (simp_all add: w2_def put_def)
  have "valid_state R (heap w2 (next_ptr w))"
    unfolding h ns_def by (rule inverted_state_valid [OF a(2) b(2)])
  moreover have "table_ok R w2"
    unfolding w2_def by (rule table_ok_alloc [OF tab])
  ultimately show ?thesis
    using return_new_equiv [OF ops, of w2 "next_ptr w"] h unfolding dc ns_def by auto
qed

lemma state_equiv_slot:
  "state_equiv R s t \<Longrightarrow> bit (filled_slots t) slot \<Longrightarrow>
     attribute_compare_to R (attributes s slot) (attributes t slot) = 0"
  by (simp add: state_equiv_def)

text \<open>
  C2 (as amended).  Take two well-formed states and a slot filled on both sides with
  different overrides.  \<open>do_compose\<close> returns, and the entry of the result in that slot
  is: the left entry when the left override is the higher one; the right entry when the
  right override is higher and the left attribute answers
  \<open>lower_attrib_can_override()\<close>; and otherwise (right higher, left does not opt in) the
  attribute \<open>a->compose(b)\<close> with the right override, not a copy of the right entry.
  The result is read through the interner, so the entry is the expected one up to
  \<open>Attribute::compare_to\<close>; with the state cache off it is the expected entry itself, and
  \<open>compose\<close> is \<open>do_compose\<close>.
\<close>

theorem do_compose_override:
  assumes "attrib_ops_ok R" and "table_ok R w"
    and "this < next_ptr w" and "valid_state R (heap w this)"
    and "other < next_ptr w" and "valid_state R (heap w other)"
    and "attrib (attributes (heap w this) slot) = Some pa"
    and "attrib (attributes (heap w other) slot) = Some pb"
    and "override (attributes (heap w this) slot) \<noteq> override (attributes (heap w other) slot)"
  shows "\<exists>r w'. do_compose R w this other = Some (r, w')
     \<and> attribute_compare_to R (attributes (heap w' r) slot)
          (if override (attributes (heap w other) slot) < override (attributes (heap w this) slot)
           then attributes (heap w this) slot
           else if lower_attrib_can_override R pa then attributes (heap w other) slot
           else \<lparr>attrib = Some (attrib_compose R pa pb),
                  override = override (attributes (heap w other) slot)\<rparr>) = 0
     \<and> (\<not> state_cache w \<longrightarrow>
          compose R w this other = Some (r, w') \<and>
          attributes (heap w' r) slot =
          (if override (attributes (heap w other) slot) < override (attributes (heap w this) slot)
           then attributes (heap w this) slot
           else if lower_attrib_can_override R pa then attributes (heap w other) slot
           else \<lparr>attrib = Some (attrib_compose R pa pb),
                  override = override (attributes (heap w other) slot)\<rparr>))"
proof -
  define expected where "expected =
     (if override (attributes (heap w other) slot) < override (attributes (heap w this) slot)
      then attributes (heap w this) slot
      else if lower_attrib_can_override R pa then attributes (heap w other) slot
      else \<lparr>attrib = Some (attrib_compose R pa pb),
             override = override (attributes (heap w other) slot)\<rparr>)"
  define cs where "cs = composed_state R (ndebug w) (heap w this) (heap w other)"
  have on: "bit (filled_slots (heap w this)) slot" "bit (filled_slots (heap w other)) slot"
    using assms(4,6,7,8) by (simp_all add: valid_state_filled)
  then have on_cs: "bit (filled_slots cs) slot"
    by (simp add: cs_def composed_state_def bit_or_iff)
  have slot_cs: "attributes cs slot = expected"
    using on assms(7,8,9)
    by (simp add: cs_def composed_state_def bit_or_iff compose_slot_def expected_def)
  have nonempty: "\<not> is_empty (heap w this)" "\<not> is_empty (heap w other)"
    using on by (auto simp: is_empty_def)
  from do_compose_equiv [OF assms(1-6)] obtain r w' where
    dc: "do_compose R w this other = Some (r, w')"
    and eq: "state_equiv R (heap w' r) cs"
    and exact: "\<not> state_cache w \<longrightarrow> heap w' r = cs"
    unfolding cs_def by blast
  from state_equiv_slot [OF eq on_cs]
  have "attribute_compare_to R (attributes (heap w' r) slot) expected = 0"
    by (simp add: slot_cs)
  moreover have "\<not> state_cache w \<longrightarrow> compose R w this other = Some (r, w')"
    using nonempty dc by (simp add: compose_def)
  moreover have "\<not> state_cache w \<longrightarrow> attributes (heap w' r) slot = expected"
    using exact slot_cs by simp
  ultimately show ?thesis
    using dc unfolding expected_def by blast
qed

text \<open>
  C3 (as amended).  Take two well-formed states and a slot filled on exactly one side.
  When only the left state (\<open>this\<close>) holds an entry, \<open>do_invert_compose\<close> stores
  \<open>a->invert_compose(default)\<close>, with the slot's default attribute in place of the missing
  right side, at override 0.  When only the right state holds an entry, that entry is
  copied unchanged, with its own override: no default is substituted and the override is
  not reset.
\<close>

theorem do_invert_compose_one_side:
  assumes "attrib_ops_ok R" and "table_ok R w"
    and "this < next_ptr w" and "valid_state R (heap w this)"
    and "other < next_ptr w" and "valid_state R (heap w other)"
    and "attrib (attributes (heap w this) slot) = None
           \<longleftrightarrow> attrib (attributes (heap w other) slot) \<noteq> None"
  shows "\<exists>r w'. do_invert_compose R w this other = Some (r, w')
     \<and> attribute_compare_to R (attributes (heap w' r) slot)
          (case attrib (attributes (heap w this) slot) of
             None \<Rightarrow> attributes (heap w other) slot
           | Some pa \<Rightarrow>
               \<lparr>attrib = Some (attrib_invert_compose R pa (get_slot_default R slot)),
                 override = 0\<rparr>) = 0
     \<and> (\<not> state_cache w \<longrightarrow>
          attributes (heap w' r) slot =
          (case attrib (attributes (heap w this) slot) of
             None \<Rightarrow> attributes (heap w other) slot
           | Some pa \<Rightarrow>
               \<lparr>attrib = Some (attrib_invert_compose R pa (get_slot_default R slot)),
                 override = 0\<rparr>))"
proof -
  define expected where "expected =
     (case attrib (attributes (heap w this) slot) of
        None \<Rightarrow> attributes (heap w other) slot
      | Some pa \<Rightarrow>
          \<lparr>attrib = Some (attrib_invert_compose R pa (get_slot_default R slot)),
            override = 0\<rparr>)"
  define cs where "cs = inverted_state R (ndebug w) (heap w this) (heap w other)"
  have on: "bit (filled_slots (heap w this)) slot \<or> bit (filled_slots (heap w other)) slot"
    using assms(7) unfolding valid_state_filled [OF assms(4)] valid_state_filled [OF assms(6)]
    by blast
  then have on_cs: "bit (filled_slots cs) slot"
    by (simp add: cs_def inverted_state_def bit_or_iff)
  have slot_cs: "attributes cs slot = expected"
    using on assms(7)
    by (auto simp: cs_def inverted_state_def bit_or_iff invert_compose_slot_def expected_def
        split: option.splits)
  from do_invert_compose_equiv [OF assms(1-6)] obtain r w' where
    dc: "do_invert_compose R w this other = Some (r, w')"
    and eq: "state_equiv R (heap w' r) cs"
    and exact: "\<not> state_cache w \<longrightarrow> heap w' r = cs"
    unfolding cs_def by blast
  from state_equiv_slot [OF eq on_cs]
  have "attribute_compare_to R (attributes (heap w' r) slot) expected = 0"
    by (simp add: slot_cs)
  moreover have "\<not> state_cache w \<longrightarrow> attributes (heap w' r) slot = expected"
    using exact slot_cs by simp
  ultimately show ?thesis
    using dc unfolding expected_def by blast
qed

text \<open>
  C9.  When slot \<open>k\<close> of state \<open>s\<close> holds no attribute, \<open>s.remove_attrib(k)\<close>
  returns the pointer \<open>s\<close> itself and changes nothing.
\<close>

theorem remove_attrib_missing:
  "attrib (attributes (heap w this) slot) = None \<Longrightarrow> remove_attrib R w this slot = Some (this, w)"
  by (simp add: remove_attrib_def)

text \<open>
  C4 (as amended).  With \<open>empty\<close> the canonical empty state: \<open>empty.compose(s)\<close>
  returns \<open>s\<close> and \<open>empty.invert_compose(t)\<close> returns \<open>t\<close>, for all states.
  \<open>s.compose(empty)\<close> returns \<open>s\<close> when \<open>s\<close> is not empty and the canonical empty
  state when \<open>s\<close> is empty; \<open>s.invert_compose(s)\<close> returns the canonical empty state
  when \<open>s\<close> is not empty and \<open>s\<close> itself when \<open>s\<close> is empty.  So the pointers are
  the claimed ones for every \<open>s\<close> that is not empty or is the canonical empty state, and
  in all cases the state returned is empty exactly when the claimed one is.
\<close>

theorem empty_identity:
  assumes "is_empty (heap w (empty_state w))"
  shows "compose R w (empty_state w) s = Some (s, w)
     \<and> invert_compose R w (empty_state w) t = Some (t, w)
     \<and> compose R w s (empty_state w) =
         Some (if is_empty (heap w s) then empty_state w else s, w)
     \<and> invert_compose R w s s = Some (if is_empty (heap w s) then s else empty_state w, w)
     \<and> is_empty (heap w (if is_empty (heap w s) then empty_state w else s)) = is_empty (heap w s)
     \<and> is_empty (heap w (if is_empty (heap w s) then s else empty_state w))"
  using assms by (simp add: compose_def invert_compose_def)

lemma set_attrib_unfold:
  "set_attrib R w this a =
     return_new R
       (w\<lparr>next_ptr := Suc (next_ptr w),
          heap := (heap w)(next_ptr w := set_attrib_state R (heap w this) a)\<rparr>)
       (next_ptr w)"
  by (simp add: set_attrib_def copy_render_state_def put_def set_attrib_state_def
      set_attribute_def blank_state_def)

lemma set_attrib_state_valid:
  assumes ops: "attrib_ops_ok R" and val: "valid_state R s"
    and slot: "0 < get_slot R a" "get_slot R a < get_num_slots R"
  shows "valid_state R (set_attrib_state R s a)"
proof -
  from ops slot have k32: "get_slot R a < 32"
    by (simp add: attrib_ops_ok_def)
  have f: "bit (filled_slots (set_attrib_state R s a)) n
      \<longleftrightarrow> bit (filled_slots s) n \<or> n = get_slot R a" for n
    using k32 by (auto simp: set_attrib_state_def bit_set_bit_mask)
  have 1: "attrib (attributes (set_attrib_state R s a) n) \<noteq> None
      \<longleftrightarrow> bit (filled_slots s) n \<or> n = get_slot R a" for n
    using val slot valid_state_slot [OF val, of n] valid_state_filled [OF val, of n]
    by (auto simp: set_attrib_state_def default_attribute_def)
  have 2: "\<not> bit (filled_slots (set_attrib_state R s a)) 0"
    using slot valid_state_zero [OF val] by (simp add: f)
  have 3: "bit (filled_slots (set_attrib_state R s a)) n \<Longrightarrow> n < get_num_slots R" for n
    using slot valid_state_slot [OF val, of n] by (auto simp: f)
  show ?thesis
    unfolding valid_state_def using f 1 2 3 by simp
qed

text \<open>
  C10.  For a well-formed state \<open>s\<close> and an attribute \<open>a\<close> of a registered slot
  (\<open>0 < slot < num_slots\<close>), the one-argument \<open>s.set_attrib(a)\<close> returns a state whose
  filled mask is that of \<open>s\<close> with \<open>a\<close>'s bit set, whose entry in \<open>a\<close>'s slot
  is \<open>a\<close> with the override stored there in \<open>s\<close> (0 for a slot never filled), and
  whose other filled slots hold the entries of \<open>s\<close>.  Entries are equal up to
  \<open>Attribute::compare_to\<close>, since the result is read through the interner; with the
  state cache off they are identical.
\<close>

theorem set_attrib_frame:
  assumes "attrib_ops_ok R" and "table_ok R w"
    and "this < next_ptr w" and "valid_state R (heap w this)"
    and "0 < get_slot R a" and "get_slot R a < get_num_slots R"
  shows "\<exists>r w'. set_attrib R w this a = Some (r, w')
     \<and> filled_slots (heap w' r) = set_bit (get_slot R a) (filled_slots (heap w this))
     \<and> attribute_compare_to R (attributes (heap w' r) (get_slot R a))
          \<lparr>attrib = Some a, override = override (attributes (heap w this) (get_slot R a))\<rparr> = 0
     \<and> override (attributes (heap w' r) (get_slot R a))
          = override (attributes (heap w this) (get_slot R a))
     \<and> (\<forall>slot. slot \<noteq> get_slot R a \<and> bit (filled_slots (heap w this)) slot \<longrightarrow>
           attribute_compare_to R (attributes (heap w' r) slot) (attributes (heap w this) slot) = 0)
     \<and> (\<not> state_cache w \<longrightarrow>
           attributes (heap w' r) (get_slot R a)
             = \<lparr>attrib = Some a, override = override (attributes (heap w this) (get_slot R a))\<rparr>
           \<and> (\<forall>slot. slot \<noteq> get_slot R a \<and> slot < get_num_slots R \<longrightarrow>
                 attributes (heap w' r) slot = attributes (heap w this) slot))"
proof -
  define ns where "ns = set_attrib_state R (heap w this) a"
  define w2 where "w2 = w\<lparr>next_ptr := Suc (next_ptr w), heap := (heap w)(next_ptr w := ns)\<rparr>"
  have h: "heap w2 (next_ptr w) = ns" "state_cache w2 = state_cache w"
    by (simp_all add: w2_def)
  have "valid_state R (heap w2 (next_ptr w))"
    unfolding h ns_def by (rule set_attrib_state_valid [OF assms(1,4,5,6)])
  moreover have "table_ok R w2"
    unfolding w2_def by (rule table_ok_alloc [OF assms(2)])
  ultimately obtain r w' where
    sa: "set_attrib R w this a = Some (r, w')"
    and eq: "state_equiv R (heap w' r) ns"
    and exact: "\<not> state_cache w \<longrightarrow> heap w' r = ns"
    using return_new_equiv [OF assms(1), of w2 "next_ptr w"] h
    unfolding set_attrib_unfold w2_def [symmetric] ns_def [symmetric] by auto
  from assms(1,6) have k32: "get_slot R a < 32"
    by (simp add: attrib_ops_ok_def)
  have ns_filled: "filled_slots ns = set_bit (get_slot R a) (filled_slots (heap w this))"
    by (simp add: ns_def set_attrib_state_def)
  have ns_k: "attributes ns (get_slot R a)
      = \<lparr>attrib = Some a, override = override (attributes (heap w this) (get_slot R a))\<rparr>"
    using assms(6) by (simp add: ns_def set_attrib_state_def)
  have ns_other: "slot \<noteq> get_slot R a \<Longrightarrow> slot < get_num_slots R \<Longrightarrow>
      attributes ns slot = attributes (heap w this) slot" for slot
    by (simp add: ns_def set_attrib_state_def)
  have filled: "filled_slots (heap w' r) = set_bit (get_slot R a) (filled_slots (heap w this))"
    using eq ns_filled by (simp add: state_equiv_def)
  have at_k: "attribute_compare_to R (attributes (heap w' r) (get_slot R a))
      \<lparr>attrib = Some a, override = override (attributes (heap w this) (get_slot R a))\<rparr> = 0"
    using state_equiv_slot [OF eq, of "get_slot R a"] k32
    by (simp add: ns_filled ns_k bit_set_bit_mask)
  then have ov: "override (attributes (heap w' r) (get_slot R a))
      = override (attributes (heap w this) (get_slot R a))"
    by (simp add: attribute_compare_to_zero)
  have others: "attribute_compare_to R (attributes (heap w' r) slot)
      (attributes (heap w this) slot) = 0"
    if "slot \<noteq> get_slot R a" "bit (filled_slots (heap w this)) slot" for slot
    using state_equiv_slot [OF eq, of slot] that valid_state_slot [OF assms(4), of slot]
    by (simp add: ns_filled ns_other bit_set_bit_mask)
  show ?thesis
    using sa filled at_k ov others exact ns_k ns_other by auto
qed

lemma bit_slots_mask: "bit (slots_mask ns) n \<longleftrightarrow> n \<in> set ns \<and> n < 32"
  unfolding slots_mask_def
  by (induction ns) (auto simp: bit_set_bit_mask dest: bit_imp_le_length)

lemma example_ops_simps:
  "get_slot example_ops a = a mod 4"
  "attrib_compose example_ops a b = a + 4 * b"
  "attrib_invert_compose example_ops a b = b + 4 * a"
  "lower_attrib_can_override example_ops a \<longleftrightarrow> a mod 4 = 2"
  "attrib_compare_to example_ops a b = int a - int b"
  "do_uniquify example_ops a = a"
  "get_num_slots example_ops = 4"
  "get_max_slots example_ops = 32"
  "get_slot_default example_ops slot = slot"
  by (simp_all add: example_ops_def)

lemma example_ops_ok: "attrib_ops_ok example_ops"
  by (simp add: attrib_ops_ok_def example_ops_def)

lemma example_compare:
  "attribute_compare_to example_ops x y = 0 \<longleftrightarrow> x = y"
  by (auto simp: attribute_compare_to_zero example_ops_simps)

lemma valid_canonical_empty: "valid_state R canonical_empty"
  by (simp add: valid_state_def canonical_empty_def blank_state_def default_attribute_def)

lemma valid_state_a: "valid_state example_ops state_a"
  by (simp add: valid_state_def state_a_def blank_state_def default_attribute_def
      example_ops_simps bit_slots_mask)

lemma valid_state_b: "valid_state example_ops state_b"
  by (auto simp: valid_state_def state_b_def blank_state_def default_attribute_def
      example_ops_simps bit_slots_mask)

lemma example_table_ok: "table_ok example_ops example_world"
  by (simp add: table_ok_def example_world_def valid_canonical_empty valid_state_a valid_state_b)
    (simp add: canonical_empty_def state_a_def state_b_def blank_state_def)

lemma example_heap:
  "heap example_world 0 = canonical_empty" "heap example_world (Suc 0) = state_a"
  "heap example_world 2 = state_b" "next_ptr example_world = 3"
  "state_cache example_world" "empty_state example_world = 0"
  by (simp_all add: example_world_def)

lemma example_slots:
  "attributes state_a (Suc 0) = \<lparr>attrib = Some 1, override = 0\<rparr>"
  "attributes state_a 2 = default_attribute"
  "attributes state_b (Suc 0) = \<lparr>attrib = Some 5, override = 1\<rparr>"
  "attributes state_b 2 = \<lparr>attrib = Some 6, override = 3\<rparr>"
  by (simp_all add: state_a_def state_b_def blank_state_def)

theorem do_compose_override_witness:
  "\<exists>r w'. do_compose example_ops example_world 1 2 = Some (r, w')
     \<and> attributes (heap w' r) 1 = \<lparr>attrib = Some 21, override = 1\<rparr>"
proof -
  have "1 < next_ptr example_world" "2 < next_ptr example_world"
    "valid_state example_ops (heap example_world 1)"
    "valid_state example_ops (heap example_world 2)"
    "attrib (attributes (heap example_world 1) 1) = Some 1"
    "attrib (attributes (heap example_world 2) 1) = Some 5"
    "override (attributes (heap example_world 1) 1) \<noteq> override (attributes (heap example_world 2) 1)"
    by (simp_all add: example_heap valid_state_a valid_state_b example_slots)
  from do_compose_override [OF example_ops_ok example_table_ok this(1,3,2,4,5,6,7)]
  show ?thesis
    by (simp add: example_heap example_slots example_compare example_ops_simps)
qed

theorem do_compose_override_counterexample:
  "(case do_compose example_ops example_world 1 2 of
      None \<Rightarrow> False
    | Some (r, w') \<Rightarrow>
        override (attributes (heap example_world 1) 1) < override (attributes (heap example_world 2) 1)
        \<and> \<not> lower_attrib_can_override example_ops (the (attrib (attributes (heap example_world 1) 1)))
        \<and> attributes (heap w' r) 1 \<noteq> attributes (heap example_world 2) 1)"
proof -
  have "1 < next_ptr example_world" "2 < next_ptr example_world"
    "valid_state example_ops (heap example_world 1)"
    "valid_state example_ops (heap example_world 2)"
    by (simp_all add: example_heap valid_state_a valid_state_b)
  from do_compose_equiv [OF example_ops_ok example_table_ok this(1,3,2,4)]
  obtain r w' where dc: "do_compose example_ops example_world 1 2 = Some (r, w')"
    and eq: "state_equiv example_ops (heap w' r)
       (composed_state example_ops (ndebug example_world) state_a state_b)"
    by (auto simp: example_heap)
  have "bit (filled_slots (composed_state example_ops (ndebug example_world) state_a state_b)) 1"
    by (simp add: composed_state_def state_a_def state_b_def bit_or_iff bit_slots_mask)
  from state_equiv_slot [OF eq this]
  have "attributes (heap w' r) 1 = \<lparr>attrib = Some 21, override = 1\<rparr>"
    by (simp add: example_compare composed_state_def compose_slot_def example_slots
        state_a_def state_b_def bit_or_iff bit_slots_mask blank_state_def example_ops_simps)
  then show ?thesis
    using dc by (simp add: example_heap example_slots example_ops_simps)
qed

theorem do_invert_compose_one_side_witness:
  "(\<exists>r w'. do_invert_compose example_ops example_world 1 2 = Some (r, w')
      \<and> attributes (heap w' r) 2 = \<lparr>attrib = Some 6, override = 3\<rparr>)
   \<and> (\<exists>r w'. do_invert_compose example_ops example_world 2 1 = Some (r, w')
      \<and> attributes (heap w' r) 2 = \<lparr>attrib = Some 26, override = 0\<rparr>)"
proof -
  have h: "1 < next_ptr example_world" "2 < next_ptr example_world"
    "valid_state example_ops (heap example_world 1)"
    "valid_state example_ops (heap example_world 2)"
    by (simp_all add: example_heap valid_state_a valid_state_b)
  have 1: "attrib (attributes (heap example_world 1) 2) = None
      \<longleftrightarrow> attrib (attributes (heap example_world 2) 2) \<noteq> None"
    by (simp add: example_heap example_slots default_attribute_def)
  have 2: "attrib (attributes (heap example_world 2) 2) = None
      \<longleftrightarrow> attrib (attributes (heap example_world 1) 2) \<noteq> None"
    by (simp add: example_heap example_slots default_attribute_def)
  from do_invert_compose_one_side [OF example_ops_ok example_table_ok h(1,3,2,4) 1]
    do_invert_compose_one_side [OF example_ops_ok example_table_ok h(2,4,1,3) 2]
  show ?thesis
    by (simp add: example_heap example_slots example_compare example_ops_simps
        default_attribute_def)
qed

theorem do_invert_compose_one_side_counterexample:
  "(case do_invert_compose example_ops example_world 1 2 of
      None \<Rightarrow> False
    | Some (r, w') \<Rightarrow>
        attrib (attributes (heap example_world 1) 2) = None
        \<and> attrib (attributes (heap example_world 2) 2) = Some 6
        \<and> override (attributes (heap w' r) 2) = 3
        \<and> attributes (heap w' r) 2 \<noteq>
            \<lparr>attrib = Some (attrib_invert_compose example_ops (get_slot_default example_ops 2) 6),
              override = 0\<rparr>)"
proof -
  have h: "1 < next_ptr example_world" "2 < next_ptr example_world"
    "valid_state example_ops (heap example_world 1)"
    "valid_state example_ops (heap example_world 2)"
    by (simp_all add: example_heap valid_state_a valid_state_b)
  from do_invert_compose_equiv [OF example_ops_ok example_table_ok h(1,3,2,4)]
  obtain r w' where dc: "do_invert_compose example_ops example_world 1 2 = Some (r, w')"
    and eq: "state_equiv example_ops (heap w' r)
       (inverted_state example_ops (ndebug example_world) state_a state_b)"
    by (auto simp: example_heap)
  have "bit (filled_slots (inverted_state example_ops (ndebug example_world) state_a state_b)) 2"
    by (simp add: inverted_state_def state_a_def state_b_def bit_or_iff bit_slots_mask)
  from state_equiv_slot [OF eq this]
  have "attributes (heap w' r) 2 = \<lparr>attrib = Some 6, override = 3\<rparr>"
    by (simp add: example_compare inverted_state_def invert_compose_slot_def example_slots
        state_a_def state_b_def bit_or_iff bit_slots_mask blank_state_def example_ops_simps
        default_attribute_def)
  then show ?thesis
    using dc by (simp add: example_heap example_slots example_ops_simps default_attribute_def)
qed

theorem remove_attrib_missing_witness:
  "remove_attrib example_ops example_world 1 2 = Some (1, example_world)"
  using remove_attrib_missing [of example_world 1 2 example_ops]
  by (simp add: example_heap example_slots default_attribute_def)

lemma is_empty_blank: "is_empty blank_state" "is_empty canonical_empty"
  by (simp_all add: is_empty_def blank_state_def canonical_empty_def)

lemma is_empty_examples: "\<not> is_empty state_a" "\<not> is_empty state_b"
proof -
  have "bit (filled_slots state_a) 1" "bit (filled_slots state_b) 1"
    by (simp_all add: state_a_def state_b_def bit_slots_mask)
  then show "\<not> is_empty state_a" "\<not> is_empty state_b"
    by (auto simp: is_empty_def)
qed

theorem empty_identity_witness:
  "compose example_ops example_world 0 1 = Some (1, example_world)
   \<and> invert_compose example_ops example_world 0 2 = Some (2, example_world)
   \<and> compose example_ops example_world 1 0 = Some (1, example_world)
   \<and> invert_compose example_ops example_world 1 1 = Some (0, example_world)
   \<and> compose example_ops example_world 0 0 = Some (0, example_world)"
proof -
  have e: "is_empty (heap example_world (empty_state example_world))"
    by (simp add: example_heap is_empty_blank)
  from empty_identity [OF e, of example_ops 1 2] empty_identity [OF e, of example_ops 0 0]
  show ?thesis
    by (simp add: example_heap is_empty_examples is_empty_blank)
qed

theorem empty_identity_counterexample:
  "is_empty (heap second_empty_world 1)
   \<and> empty_state second_empty_world = 0
   \<and> compose example_ops second_empty_world 1 (empty_state second_empty_world)
       = Some (0, second_empty_world)
   \<and> compose example_ops second_empty_world 1 (empty_state second_empty_world)
       \<noteq> Some (1, second_empty_world)
   \<and> invert_compose example_ops second_empty_world 1 1 = Some (1, second_empty_world)
   \<and> invert_compose example_ops second_empty_world 1 1
       \<noteq> Some (empty_state second_empty_world, second_empty_world)"
  by (simp add: compose_def invert_compose_def second_empty_world_def is_empty_blank)

lemma lowest_zero: "get_lowest_on_bit 0 = -1"
  by (simp add: get_lowest_on_bit_def on_bits_def)

lemma second_empty_world_reached:
  "adjust_all_priorities example_ops (init_states example_ops start_world)
     (empty_state (init_states example_ops start_world)) 1 = Some (1, second_empty_world)"
proof -
  define w0 where "w0 = start_world\<lparr>heap := (\<lambda>p. blank_state)(0 := canonical_empty),
      next_ptr := 1, states := [0]\<rparr>"
  have c: "check_hash example_ops False blank_state = blank_state\<lparr>hash_known := True\<rparr>"
    unfolding check_hash_def do_calc_hash_def
    by (subst calc_hash_loop.simps) (simp add: blank_state_def lowest_zero)
  have i: "init_states example_ops start_world = w0"
    by (simp add: init_states_def start_world_def new_render_state_def put_def c)
      (simp add: canonical_empty_def blank_state_def w0_def start_world_def)
  have e: "empty_state w0 = 0" "heap w0 0 = canonical_empty" "next_ptr w0 = 1" "\<not> ndebug w0"
    by (simp_all add: w0_def start_world_def)
  have a: "(\<lambda>i. if i < get_num_slots example_ops then attributes canonical_empty i
        else default_attribute) = (\<lambda>slot. default_attribute)"
    by (intro ext) (simp add: canonical_empty_def blank_state_def)
  have b: "blank_state\<lparr>attributes := \<lambda>slot. default_attribute,
      filled_slots := filled_slots canonical_empty\<rparr> = blank_state"
    by (simp add: blank_state_def canonical_empty_def)
  have c: "copy_render_state example_ops w0 0 = (1, second_empty_world)"
    unfolding copy_render_state_def e a b
    by (simp add: put_def w0_def start_world_def second_empty_world_def)
  have l: "adjust_loop 1 (filled_slots canonical_empty) blank_state False = (True, blank_state)"
    by (subst adjust_loop.simps) (simp add: canonical_empty_def blank_state_def lowest_zero)
  have h: "heap second_empty_world 1 = blank_state" "heap second_empty_world 0 = canonical_empty"
    "\<not> state_cache second_empty_world" "heap second_empty_world (Suc 0) = blank_state"
    by (simp_all add: second_empty_world_def)
  have v: "valid_state example_ops (heap second_empty_world 1)"
    by (simp add: h valid_state_def blank_state_def default_attribute_def)
  have r: "return_new example_ops second_empty_world 1 = Some (1, second_empty_world)"
    unfolding return_new_valid [OF example_ops_ok v]
    by (simp add: return_unique_def h)
  have p: "put second_empty_world 1 blank_state = second_empty_world"
    using put_same [of second_empty_world 1] by (simp add: h)
  show ?thesis
    unfolding i adjust_all_priorities_def e c
    using l p r by (simp add: h e)
qed

theorem set_attrib_frame_witness:
  "\<exists>r w'. set_attrib example_ops example_world 2 9 = Some (r, w')
     \<and> filled_slots (heap w' r) = filled_slots (heap example_world 2)
     \<and> attributes (heap w' r) 1 = \<lparr>attrib = Some 9, override = 1\<rparr>
     \<and> attributes (heap w' r) 2 = \<lparr>attrib = Some 6, override = 3\<rparr>"
proof -
  have h: "2 < next_ptr example_world" "valid_state example_ops (heap example_world 2)"
    "0 < get_slot example_ops 9" "get_slot example_ops 9 < get_num_slots example_ops"
    by (simp_all add: example_heap valid_state_b example_ops_simps)
  have k: "get_slot example_ops 9 = 1"
    by (simp add: example_ops_simps)
  have on: "bit (filled_slots (heap example_world 2)) 1" "bit (filled_slots (heap example_world 2)) 2"
    by (simp_all add: example_heap state_b_def bit_slots_mask)
  have same: "set_bit 1 (filled_slots (heap example_world 2)) = filled_slots (heap example_world 2)"
    using on(1) by (intro bit_eqI) (auto simp: bit_set_bit_mask)
  from set_attrib_frame [OF example_ops_ok example_table_ok h] obtain r w' where
    sa: "set_attrib example_ops example_world 2 9 = Some (r, w')"
    and f: "filled_slots (heap w' r) = set_bit 1 (filled_slots (heap example_world 2))"
    and a: "attribute_compare_to example_ops (attributes (heap w' r) 1)
          \<lparr>attrib = Some 9, override = override (attributes (heap example_world 2) 1)\<rparr> = 0"
    and o: "\<forall>slot. slot \<noteq> 1 \<and> bit (filled_slots (heap example_world 2)) slot \<longrightarrow>
           attribute_compare_to example_ops (attributes (heap w' r) slot)
             (attributes (heap example_world 2) slot) = 0"
    unfolding k by blast
  from o on(2) have "attribute_compare_to example_ops (attributes (heap w' r) 2)
      (attributes (heap example_world 2) 2) = 0"
    by simp
  with sa f a same show ?thesis
    by (simp add: example_compare example_heap example_slots)
qed






lemma calc_hash_loop_stop:
  "\<not> 0 \<le> get_lowest_on_bit msk \<Longrightarrow> calc_hash_loop R nd s msk h = (True, h)"
  by (subst calc_hash_loop.simps) simp


lemma calc_hash_loop_step:
  assumes "0 \<le> get_lowest_on_bit msk"
    and "\<not> (attrib (attributes s (nat (get_lowest_on_bit msk))) = None \<and> \<not> nd)"
  shows "calc_hash_loop R nd s msk h =
     calc_hash_loop R nd s (unset_bit (nat (get_lowest_on_bit msk)) msk)
       (int_add_hash R
          (pointer_add_hash R h (attrib (attributes s (nat (get_lowest_on_bit msk)))))
          (override (attributes s (nat (get_lowest_on_bit msk)))))"
  by (subst calc_hash_loop.simps) (simp only: if_P [OF assms(1)] if_not_P [OF assms(2)])


lemma calc_hash_loop_done:
  "\<forall>n. bit msk n \<longrightarrow> attrib (attributes s n) \<noteq> None \<Longrightarrow>
   fst (calc_hash_loop R nd s msk h)"
proof (induction R nd s msk h rule: calc_hash_loop.induct)
  case (1 R nd s msk h)
  show ?case
  proof (cases "0 \<le> get_lowest_on_bit msk")
    case False
    then show ?thesis
      by (simp add: calc_hash_loop_stop)
  next
    case True
    define n where "n = nat (get_lowest_on_bit msk)"
    have "bit msk n"
      unfolding n_def by (rule lowest_on_bit_is_on [OF True])
    with "1.prems" have some: "\<not> (attrib (attributes s n) = None \<and> \<not> nd)" by simp
    have "\<forall>m. bit (unset_bit n msk) m \<longrightarrow> attrib (attributes s m) \<noteq> None"
      using "1.prems" by (simp add: bit_unset_bit_iff)
    from "1.IH" [OF True some [unfolded n_def] this [unfolded n_def]] show ?thesis
      unfolding calc_hash_loop_step [OF True some [unfolded n_def]] .
  qed
qed




lemma check_hash_known:
  "hash_known (check_hash R nd s) \<Longrightarrow> hash_known s \<or> fst (calc_hash_loop R nd s (filled_slots s) 0)"
  by (auto simp: check_hash_def do_calc_hash_def split: prod.splits if_splits)










lemma on_bits_lowest:
  assumes "0 \<le> get_lowest_on_bit msk"
  shows "on_bits msk = nat (get_lowest_on_bit msk) # on_bits (unset_bit (nat (get_lowest_on_bit msk)) msk)"
proof -
  from assms obtain n rest where nr: "on_bits msk = n # rest"
    by (auto simp: get_lowest_on_bit_def split: list.splits)
  then have n: "nat (get_lowest_on_bit msk) = n"
    by (simp add: get_lowest_on_bit_def)
  have "distinct (on_bits msk)"
    by (simp add: on_bits_def)
  with nr have "n \<notin> set rest" by simp
  then have "filter (\<lambda>m. m \<noteq> n) rest = rest"
    by (induction rest) auto
  then show ?thesis
    unfolding n on_bits_unset nr by simp
qed

lemma on_bits_none: "\<not> 0 \<le> get_lowest_on_bit msk \<Longrightarrow> on_bits msk = []"
  by (simp add: get_lowest_on_bit_def split: list.splits)

lemma calc_hash_loop_fold:
  "\<forall>n. bit msk n \<longrightarrow> attrib (attributes s n) \<noteq> None \<Longrightarrow>
   calc_hash_loop R nd s msk h =
     (True, foldl (\<lambda>h n. int_add_hash R (pointer_add_hash R h (attrib (attributes s n)))
                           (override (attributes s n))) h (on_bits msk))"
proof (induction R nd s msk h rule: calc_hash_loop.induct)
  case (1 R nd s msk h)
  show ?case
  proof (cases "0 \<le> get_lowest_on_bit msk")
    case False
    then show ?thesis
      by (simp add: calc_hash_loop_stop on_bits_none)
  next
    case True
    define n where "n = nat (get_lowest_on_bit msk)"
    have "bit msk n"
      unfolding n_def by (rule lowest_on_bit_is_on [OF True])
    with "1.prems" have some: "\<not> (attrib (attributes s n) = None \<and> \<not> nd)" by simp
    have "\<forall>m. bit (unset_bit n msk) m \<longrightarrow> attrib (attributes s m) \<noteq> None"
      using "1.prems" by (simp add: bit_unset_bit_iff)
    from "1.IH" [OF True some [unfolded n_def] this [unfolded n_def]] show ?thesis
      unfolding calc_hash_loop_step [OF True some [unfolded n_def]]
      by (simp add: on_bits_lowest [OF True])
  qed
qed

lemma on_bits_examples:
  "on_bits 0 = []" "on_bits (slots_mask [Suc 0]) = [Suc 0]" "on_bits (slots_mask [2]) = [2]"
  "on_bits (slots_mask [Suc 0, 2]) = [Suc 0, 2]"
  by (simp_all add: on_bits_def bit_slots_mask upt_conv_Cons)












lemma return_unique_frame:
  assumes ops: "attrib_ops_ok R" and tab: "table_ok R w"
    and val: "valid_state R (heap w state)" and alloc: "state < next_ptr w"
  shows "\<exists>r w'. return_unique R w state = Some (r, w')
     \<and> state_equiv R (heap w' r) (heap w state)
     \<and> (r = state \<or> r \<in> set (states w))
     \<and> table_ok R w' \<and> next_ptr w' = next_ptr w \<and> ndebug w' = ndebug w
     \<and> state_cache w' = state_cache w
     \<and> (\<forall>q. q \<noteq> state \<longrightarrow> heap w' q = heap w q)
     \<and> composition_cache (heap w' state) = composition_cache (heap w state)
     \<and> invert_composition_cache (heap w' state) = invert_composition_cache (heap w state)
     \<and> valid_state R (heap w' state)"
proof (cases "\<not> state_cache w \<or> (\<not> ndebug w \<and> paranoid_const w \<and> \<not> validate_states R w)
    \<or> saved_entry (heap w state) \<noteq> -1")
  case True
  then have "return_unique R w state = Some (state, w)"
    by (rule return_unique_skip)
  then show ?thesis
    using tab val by (simp add: state_equiv_refl)
next
  case False
  then have sc: "state_cache w" and unsaved: "saved_entry (heap w state) = -1" by simp_all
  have not_in: "state \<notin> set (states w)"
    using tab unsaved by (auto simp: table_ok_def)
  define u where "u = (if \<not> uniquify_attribs w \<and> \<not> is_empty (heap w state)
      then uniquified R (heap w state) else heap w state)"
  define s where "s = check_hash R (ndebug w) u"
  have us: "(if \<not> uniquify_attribs w \<and> \<not> is_empty (heap w state)
      then uniquify_loop R (heap w state) (filled_slots (heap w state))
      else Some (heap w state)) = Some u"
    using val by (simp add: u_def uniquify_loop_valid)
  have s_equiv: "state_equiv R s (heap w state)"
    using ops by (simp add: s_def u_def check_hash_equiv uniquified_equiv state_equiv_refl)
  have s_valid: "valid_state R s"
    using val by (simp add: s_def u_def check_hash_valid uniquified_valid)
  have s_caches: "composition_cache s = composition_cache (heap w state)"
    "invert_composition_cache s = invert_composition_cache (heap w state)"
    by (simp_all add: s_def u_def check_hash_fields uniquified_def)
  define ws where "ws = put w state s"
  have ws_heap: "heap ws q = (if q = state then s else heap w q)" for q
    by (simp add: ws_def put_def)
  have ws_other: "states ws = states w" "next_ptr ws = next_ptr w" "state_cache ws = state_cache w"
    "ndebug ws = ndebug w"
    by (simp_all add: ws_def put_def)
  have ws_tab: "table_ok R ws"
    unfolding table_ok_def ws_other using tab not_in by (auto simp: ws_heap table_ok_def)
  show ?thesis
  proof (cases "find_state R ws (states w) state")
    case (Some k)
    from find_state_Some [OF Some] not_in
    have k: "k \<in> set (states w)" and "k \<noteq> state"
      and eq: "compare_to R (heap ws k) (heap ws state) = 0"
      by auto
    with tab have k_valid: "valid_state R (heap w k)"
      by (simp add: table_ok_def)
    from eq \<open>k \<noteq> state\<close> have "compare_to R (heap w k) s = 0"
      by (simp add: ws_heap)
    with k_valid s_valid have "state_equiv R (heap w k) s"
      by (simp add: compare_to_equiv)
    with s_equiv ops have equiv: "state_equiv R (heap w k) (heap w state)"
      by (blast intro: state_equiv_trans)
    define w' where "w' = (if ref_count s = 0 then delete_state ws state else ws)"
    have ru: "return_unique R w state = Some (k, w')"
      unfolding return_unique_search [OF False us s_def] w'_def ws_def [symmetric]
      using Some by simp
    have w'_same: "heap w' = heap ws" "states w' = states ws" "next_ptr w' = next_ptr ws"
      "state_cache w' = state_cache ws" "ndebug w' = ndebug ws"
      by (simp_all add: w'_def delete_state_def)
    have "table_ok R w'"
      using ws_tab unfolding table_ok_def w'_same .
    moreover have "state_equiv R (heap w' k) (heap w state)"
      using equiv \<open>k \<noteq> state\<close> by (simp add: w'_same ws_heap)
    ultimately show ?thesis
      using ru k s_caches s_valid by (simp add: w'_same ws_other ws_heap)
  next
    case None
    define w1 where "w1 = (if garbage_collect_states w then cache_ref ws state else ws)"
    define w' where "w' = (put w1 state ((heap w1 state)\<lparr>saved_entry := int (length (states w))\<rparr>))
                          \<lparr>states := states w @ [state]\<rparr>"
    have ru: "return_unique R w state = Some (state, w')"
      unfolding return_unique_search [OF False us s_def] w'_def w1_def ws_def [symmetric]
      using None by simp
    have w'_other: "heap w' q = heap w q" if "q \<noteq> state" for q
      using that by (simp add: w'_def w1_def ws_def put_def cache_ref_def)
    have w'_state: "filled_slots (heap w' state) = filled_slots s"
      "attributes (heap w' state) = attributes s"
      "saved_entry (heap w' state) = int (length (states w))"
      "composition_cache (heap w' state) = composition_cache s"
      "invert_composition_cache (heap w' state) = invert_composition_cache s"
      by (simp_all add: w'_def w1_def ws_def put_def cache_ref_def)
    have w'_rest: "states w' = states w @ [state]" "next_ptr w' = next_ptr w"
      "state_cache w' = state_cache w" "ndebug w' = ndebug w"
      by (simp_all add: w'_def w1_def ws_def put_def cache_ref_def)
    have st_valid: "valid_state R (heap w' state)"
      using s_valid unfolding valid_state_def w'_state(1,2) .
    have st_equiv: "state_equiv R (heap w' state) (heap w state)"
      using s_equiv w'_state by (simp add: state_equiv_def)
    have tab': "table_ok R w'"
      unfolding table_ok_def w'_rest
    proof (intro ballI)
      fix k assume "k \<in> set (states w @ [state])"
      then consider "k \<in> set (states w)" | "k = state" by auto
      then show "valid_state R (heap w' k) \<and> saved_entry (heap w' k) \<noteq> -1 \<and> k < next_ptr w"
      proof cases
        case 1
        with not_in have "k \<noteq> state" by auto
        with 1 tab show ?thesis by (simp add: w'_other table_ok_def)
      next
        case 2
        with st_valid alloc show ?thesis by (simp add: w'_state)
      qed
    qed
    show ?thesis
      using ru st_equiv tab' st_valid w'_other by (simp add: w'_rest w'_state s_caches)
  qed
qed

lemma return_new_frame:
  assumes ops: "attrib_ops_ok R" and tab: "table_ok R w"
    and val: "valid_state R (heap w state)" and alloc: "state < next_ptr w"
  shows "\<exists>r w'. return_new R w state = Some (r, w')
     \<and> state_equiv R (heap w' r) (heap w state)
     \<and> (r = state \<or> r \<in> set (states w))
     \<and> table_ok R w' \<and> next_ptr w' = next_ptr w \<and> ndebug w' = ndebug w
     \<and> state_cache w' = state_cache w
     \<and> (\<forall>q. q \<noteq> state \<longrightarrow> heap w' q = heap w q)
     \<and> composition_cache (heap w' state) = composition_cache (heap w state)
     \<and> invert_composition_cache (heap w' state) = invert_composition_cache (heap w state)
     \<and> valid_state R (heap w' state)"
proof (cases "\<not> uniquify_states w \<and> \<not> is_empty (heap w state)")
  case True
  then have "return_new R w state = Some (state, w)"
    unfolding return_new_valid [OF ops val] by simp
  then show ?thesis
    using tab val by (simp add: state_equiv_refl)
next
  case False
  then have "return_new R w state = return_unique R w state"
    unfolding return_new_valid [OF ops val] by auto
  with return_unique_frame [OF ops tab val alloc] show ?thesis by simp
qed

lemma do_compose_unfold:
  assumes "this < next_ptr w" "valid_state R (heap w this)"
    and "other < next_ptr w" "valid_state R (heap w other)"
  shows "do_compose R w this other =
     return_new R
       (w\<lparr>next_ptr := Suc (next_ptr w),
          heap := (heap w)(next_ptr w :=
             composed_state R (ndebug w) (heap w this) (heap w other))\<rparr>)
       (next_ptr w)"
  using assms(1,3) do_compose_loop_valid [OF assms(2,4), of "ndebug w"]
  by (simp add: do_compose_def new_render_state_def put_def)

lemma do_invert_compose_unfold:
  assumes "this < next_ptr w" "valid_state R (heap w this)"
    and "other < next_ptr w" "valid_state R (heap w other)"
  shows "do_invert_compose R w this other =
     return_new R
       (w\<lparr>next_ptr := Suc (next_ptr w),
          heap := (heap w)(next_ptr w :=
             inverted_state R (ndebug w) (heap w this) (heap w other))\<rparr>)
       (next_ptr w)"
  using assms(1,3) do_invert_compose_loop_valid [OF assms(2,4), of "ndebug w"]
  by (simp add: do_invert_compose_def new_render_state_def put_def)

lemma do_composition_unfold:
  assumes "this < next_ptr w" "valid_state R (heap w this)"
    and "other < next_ptr w" "valid_state R (heap w other)"
  shows "(if inverted then do_invert_compose R w this other else do_compose R w this other) =
     return_new R
       (w\<lparr>next_ptr := Suc (next_ptr w),
          heap := (heap w)(next_ptr w :=
             composition_of inverted R (ndebug w) (heap w this) (heap w other))\<rparr>)
       (next_ptr w)"
  using do_compose_unfold [OF assms] do_invert_compose_unfold [OF assms]
  by (simp add: composition_of_def)

lemma composition_of_valid:
  "valid_state R this \<Longrightarrow> valid_state R other \<Longrightarrow>
   valid_state R (composition_of inverted R nd this other)"
  by (simp add: composition_of_def composed_state_valid inverted_state_valid)

lemma composition_of_caches:
  "composition_cache (composition_of inverted R nd this other) = []"
  "invert_composition_cache (composition_of inverted R nd this other) = []"
  by (simp_all add: composition_of_def composed_state_def inverted_state_def blank_state_def)

lemma do_composition_frame:
  assumes ops: "attrib_ops_ok R" and tab: "table_ok R w"
    and a: "this < next_ptr w" "valid_state R (heap w this)"
    and b: "other < next_ptr w" "valid_state R (heap w other)"
  shows "\<exists>r w'. (if inverted then do_invert_compose R w this other
                  else do_compose R w this other) = Some (r, w')
     \<and> state_equiv R (heap w' r)
          (composition_of inverted R (ndebug w) (heap w this) (heap w other))
     \<and> r \<le> next_ptr w \<and> next_ptr w' = Suc (next_ptr w)
     \<and> table_ok R w' \<and> ndebug w' = ndebug w \<and> state_cache w' = state_cache w
     \<and> (\<forall>q. q \<noteq> next_ptr w \<longrightarrow> heap w' q = heap w q)
     \<and> composition_cache (heap w' (next_ptr w)) = []
     \<and> invert_composition_cache (heap w' (next_ptr w)) = []
     \<and> valid_state R (heap w' r)"
proof -
  define ns where "ns = composition_of inverted R (ndebug w) (heap w this) (heap w other)"
  define w2 where "w2 = w\<lparr>next_ptr := Suc (next_ptr w), heap := (heap w)(next_ptr w := ns)\<rparr>"
  have h: "heap w2 (next_ptr w) = ns" "state_cache w2 = state_cache w" "ndebug w2 = ndebug w"
    "next_ptr w2 = Suc (next_ptr w)" "states w2 = states w"
    "\<And>q. q \<noteq> next_ptr w \<Longrightarrow> heap w2 q = heap w q"
    by (simp_all add: w2_def)
  have v: "valid_state R (heap w2 (next_ptr w))"
    unfolding h ns_def by (rule composition_of_valid [OF a(2) b(2)])
  have t: "table_ok R w2"
    unfolding w2_def by (rule table_ok_alloc [OF tab])
  have n: "next_ptr w < next_ptr w2"
    by (simp add: h)
  from return_new_frame [OF ops t v n] obtain r w' where
    rn: "return_new R w2 (next_ptr w) = Some (r, w')"
    and eq: "state_equiv R (heap w' r) (heap w2 (next_ptr w))"
    and r: "r = next_ptr w \<or> r \<in> set (states w2)"
    and rest: "table_ok R w'" "next_ptr w' = next_ptr w2" "ndebug w' = ndebug w2"
      "state_cache w' = state_cache w2"
      "\<forall>q. q \<noteq> next_ptr w \<longrightarrow> heap w' q = heap w2 q"
      "composition_cache (heap w' (next_ptr w)) = composition_cache (heap w2 (next_ptr w))"
      "invert_composition_cache (heap w' (next_ptr w))
         = invert_composition_cache (heap w2 (next_ptr w))"
      "valid_state R (heap w' (next_ptr w))"
    by blast
  from r tab have le: "r \<le> next_ptr w"
    by (auto simp: h table_ok_def dest: less_imp_le)
  have "valid_state R (heap w' r)"
  proof (cases "r = next_ptr w")
    case True
    with rest(8) show ?thesis by simp
  next
    case False
    with r have "r \<in> set (states w)" by (simp add: h)
    with tab have "valid_state R (heap w r)" by (simp add: table_ok_def)
    with False rest(5) show ?thesis by (simp add: h)
  qed
  with le show ?thesis
    unfolding do_composition_unfold [OF a b, of inverted] ns_def [symmetric] w2_def [symmetric]
    using rn eq rest by (simp add: h ns_def composition_of_caches)
qed


lemma cache_find_Some:
  "cache_find c k = Some i \<Longrightarrow> i < length c \<and> fst (c ! i) = k"
  by (induction c arbitrary: i) (auto split: if_splits)

lemma cache_assign_subset: "set (cache_assign c k r) \<subseteq> insert (k, r) (set c)"
  by (auto simp: cache_assign_def split: option.splits dest: set_update_subset_insert [THEN subsetD])

lemma valid_state_content:
  "same_content s t \<Longrightarrow> valid_state R s \<longleftrightarrow> valid_state R t"
  by (simp add: same_content_def valid_state_def)

lemma state_equiv_content:
  "same_content s s' \<Longrightarrow> same_content t t' \<Longrightarrow> state_equiv R s t \<longleftrightarrow> state_equiv R s' t'"
  by (simp add: same_content_def state_equiv_def)

lemma composition_of_content:
  "same_content a a' \<Longrightarrow> same_content b b' \<Longrightarrow>
   composition_of inverted R nd a b = composition_of inverted R nd a' b'"
  by (simp add: same_content_def composition_of_def composed_state_def inverted_state_def
      cong: if_cong)


lemma table_ok_caches:
  assumes "table_ok R w" "only_caches_differ w w'"
  shows "table_ok R w'"
  using assms unfolding table_ok_def only_caches_differ_def
  by (metis valid_state_content)

lemma coherent_alloc:
  assumes coh: "coherent R w"
    and fr: "next_ptr w1 = Suc (next_ptr w)" "ndebug w1 = ndebug w"
      "\<forall>q. q \<noteq> next_ptr w \<longrightarrow> heap w1 q = heap w q"
      "composition_cache (heap w1 (next_ptr w)) = []"
      "invert_composition_cache (heap w1 (next_ptr w)) = []"
  shows "coherent R w1"
  unfolding coherent_def
proof (intro allI impI)
  fix inverted p q r
  assume mem: "(q, Some r) \<in> set (cache_of inverted (heap w1 p))"
  have "cache_of inverted (heap w1 (next_ptr w)) = []"
    using fr(4,5) by (simp add: cache_of_def)
  with mem have p: "p \<noteq> next_ptr w" by auto
  with mem fr(3) have "(q, Some r) \<in> set (cache_of inverted (heap w p))" by simp
  with coh have c: "q < next_ptr w" "r < next_ptr w"
    "valid_state R (heap w p)" "valid_state R (heap w q)" "valid_state R (heap w r)"
    "state_equiv R (heap w r) (composition_of inverted R (ndebug w) (heap w p) (heap w q))"
    unfolding coherent_def by blast+
  from c(1,2) p fr(3) have same: "heap w1 p = heap w p" "heap w1 q = heap w q"
    "heap w1 r = heap w r" by simp_all
  from c show "q < next_ptr w1 \<and> r < next_ptr w1
        \<and> valid_state R (heap w1 p) \<and> valid_state R (heap w1 q) \<and> valid_state R (heap w1 r)
        \<and> state_equiv R (heap w1 r)
             (composition_of inverted R (ndebug w1) (heap w1 p) (heap w1 q))"
    by (simp add: same fr(1,2))
qed

lemma coherent_update:
  assumes coh: "coherent R w1" and diff: "only_caches_differ w1 w'"
    and entries: "\<forall>i p q r. (q, Some r) \<in> set (cache_of i (heap w' p)) \<longrightarrow>
        (q, Some r) \<in> set (cache_of i (heap w1 p))
        \<or> (i = inverted \<and> p = this \<and> q = other \<and> r = result)"
    and new: "other < next_ptr w1" "result < next_ptr w1"
      "valid_state R (heap w1 this)" "valid_state R (heap w1 other)"
      "valid_state R (heap w1 result)"
      "state_equiv R (heap w1 result)
         (composition_of inverted R (ndebug w1) (heap w1 this) (heap w1 other))"
  shows "coherent R w'"
  unfolding coherent_def
proof (intro allI impI)
  fix i p q r
  assume mem: "(q, Some r) \<in> set (cache_of i (heap w' p))"
  have c: "q < next_ptr w1 \<and> r < next_ptr w1
        \<and> valid_state R (heap w1 p) \<and> valid_state R (heap w1 q) \<and> valid_state R (heap w1 r)
        \<and> state_equiv R (heap w1 r)
             (composition_of i R (ndebug w1) (heap w1 p) (heap w1 q))"
  proof (cases "(q, Some r) \<in> set (cache_of i (heap w1 p))")
    case True
    with coh show ?thesis unfolding coherent_def by blast
  next
    case False
    with mem entries have "i = inverted \<and> p = this \<and> q = other \<and> r = result" by blast
    with new show ?thesis by simp
  qed
  from diff have sc: "\<And>x. same_content (heap w' x) (heap w1 x)"
    and np: "next_ptr w' = next_ptr w1" "ndebug w' = ndebug w1"
    by (simp_all add: only_caches_differ_def)
  show "q < next_ptr w' \<and> r < next_ptr w'
        \<and> valid_state R (heap w' p) \<and> valid_state R (heap w' q) \<and> valid_state R (heap w' r)
        \<and> state_equiv R (heap w' r)
             (composition_of i R (ndebug w') (heap w' p) (heap w' q))"
    using c state_equiv_content [OF sc [of r], of
        "composition_of i R (ndebug w1) (heap w1 p) (heap w1 q)"
        "composition_of i R (ndebug w1) (heap w1 p) (heap w1 q)" R]
    unfolding np valid_state_content [OF sc]
      composition_of_content [OF sc sc, of i R "ndebug w1" p q]
    by (simp add: same_content_def)
qed

lemma only_caches_differ_refl: "only_caches_differ w w"
  by (simp add: only_caches_differ_def same_content_def)

lemma only_caches_differ_cache_ref:
  "only_caches_differ w0 w \<Longrightarrow> only_caches_differ w0 (cache_ref w r)"
  by (simp add: only_caches_differ_def cache_ref_def put_def same_content_def)

lemma only_caches_differ_put:
  "only_caches_differ w0 w \<Longrightarrow>
   only_caches_differ w0 (put w p (set_cache_of j c (heap w p)))"
  by (simp add: only_caches_differ_def put_def same_content_def set_cache_of_def)

lemma only_caches_differ_store:
  "only_caches_differ w0 w \<Longrightarrow> only_caches_differ w0 (store_result j w p k x)"
  unfolding store_result_def by (rule only_caches_differ_put)

lemma cache_of_cache_ref: "cache_of i (heap (cache_ref w r) q) = cache_of i (heap w q)"
  by (simp add: cache_ref_def put_def cache_of_def)

lemma cache_of_put:
  "cache_of i (heap (put w p (set_cache_of j c (heap w p))) q) =
     (if q = p \<and> i = j then c else cache_of i (heap w q))"
  by (simp add: put_def cache_of_def set_cache_of_def)

lemma entries_store:
  assumes "(q, Some r) \<in> set (cache_of i (heap (store_result j w p k x) p'))"
  shows "(q, Some r) \<in> set (cache_of i (heap w p'))
     \<or> (i = j \<and> p' = p \<and> q = k \<and> x = Some r)"
proof (cases "p' = p \<and> i = j")
  case True
  with assms have "(q, Some r) \<in> set (cache_assign (cache_of j (heap w p)) k x)"
    by (simp add: store_result_def cache_of_put)
  with cache_assign_subset have "(q, Some r) \<in> insert (k, x) (set (cache_of j (heap w p)))"
    by blast
  with True show ?thesis by auto
next
  case False
  with assms show ?thesis
    by (auto simp: store_result_def cache_of_put)
qed

lemma entries_update:
  assumes "(q, Some r) \<in>
      set (cache_of i (heap (put w p (set_cache_of j ((cache_of j (heap w p))[n := (k, x)])
              (heap w p))) p'))"
  shows "(q, Some r) \<in> set (cache_of i (heap w p'))
     \<or> (i = j \<and> p' = p \<and> q = k \<and> x = Some r)"
proof (cases "p' = p \<and> i = j")
  case True
  with assms have m: "(q, Some r) \<in> set ((cache_of j (heap w p))[n := (k, x)])"
    by (simp add: cache_of_put)
  have "set ((cache_of j (heap w p))[n := (k, x)]) \<subseteq> insert (k, x) (set (cache_of j (heap w p)))"
    by (rule set_update_subset_insert)
  with m have "(q, Some r) \<in> insert (k, x) (set (cache_of j (heap w p)))"
    by (rule subsetD [rotated])
  with True show ?thesis by auto
next
  case False
  from assms have "(q, Some r) \<in> set (if p' = p \<and> i = j then (cache_of j (heap w p))[n := (k, x)]
      else cache_of i (heap w p'))"
    unfolding cache_of_put .
  then have "(q, Some r) \<in> set (cache_of i (heap w p'))"
    unfolding if_not_P [OF False] .
  then show ?thesis ..
qed

lemma cached_composition_result:
  assumes ops: "attrib_ops_ok R" and tab: "table_ok R w" and coh: "coherent R w"
    and a: "this < next_ptr w" "valid_state R (heap w this)"
    and b: "other < next_ptr w" "valid_state R (heap w other)"
  shows "\<exists>r w'. cached_composition inverted R w this other = Some (r, w')
     \<and> state_equiv R (heap w' r)
          (composition_of inverted R (ndebug w) (heap w this) (heap w other))
     \<and> valid_state R (heap w' r) \<and> r < next_ptr w'
     \<and> coherent R w' \<and> table_ok R w' \<and> next_ptr w \<le> next_ptr w'
     \<and> ndebug w' = ndebug w \<and> state_cache w' = state_cache w
     \<and> (\<forall>q<next_ptr w. same_content (heap w' q) (heap w q))"
proof -
  define c where "c = cache_of inverted (heap w this)"
  define ns where "ns = composition_of inverted R (ndebug w) (heap w this) (heap w other)"
  from do_composition_frame [OF ops tab a b, of inverted] obtain result w1 where
    dc: "(if inverted then do_invert_compose R w this other
          else do_compose R w this other) = Some (result, w1)"
    and eq: "state_equiv R (heap w1 result) ns"
    and le: "result \<le> next_ptr w" and np: "next_ptr w1 = Suc (next_ptr w)"
    and tab1: "table_ok R w1" and nd: "ndebug w1 = ndebug w"
    and sc: "state_cache w1 = state_cache w"
    and same: "\<forall>q. q \<noteq> next_ptr w \<longrightarrow> heap w1 q = heap w q"
    and empty: "composition_cache (heap w1 (next_ptr w)) = []"
      "invert_composition_cache (heap w1 (next_ptr w)) = []"
    and val: "valid_state R (heap w1 result)"
    unfolding ns_def by blast
  from a b same have h1: "heap w1 this = heap w this" "heap w1 other = heap w other"
    by simp_all
  have coh1: "coherent R w1"
    by (rule coherent_alloc [OF coh np nd same empty])
  have fin: "state_equiv R (heap w' result) ns
     \<and> valid_state R (heap w' result) \<and> result < next_ptr w'
     \<and> coherent R w' \<and> table_ok R w' \<and> next_ptr w \<le> next_ptr w'
     \<and> ndebug w' = ndebug w \<and> state_cache w' = state_cache w
     \<and> (\<forall>q<next_ptr w. same_content (heap w' q) (heap w q))"
    if diff: "only_caches_differ w1 w'"
      and entries: "\<forall>i p q r. (q, Some r) \<in> set (cache_of i (heap w' p)) \<longrightarrow>
        (q, Some r) \<in> set (cache_of i (heap w1 p))
        \<or> (i = inverted \<and> p = this \<and> q = other \<and> r = result)"
    for w'
  proof -
    from diff have content: "\<And>x. same_content (heap w' x) (heap w1 x)"
      and flags: "next_ptr w' = next_ptr w1" "ndebug w' = ndebug w1"
        "state_cache w' = state_cache w1"
      by (simp_all add: only_caches_differ_def)
    have "coherent R w'"
    proof (rule coherent_update [OF coh1 diff entries])
      show "other < next_ptr w1" "result < next_ptr w1"
        using b(1) le np by simp_all
      show "valid_state R (heap w1 this)" "valid_state R (heap w1 other)"
        using a(2) b(2) by (simp_all add: h1)
      show "valid_state R (heap w1 result)" by (rule val)
      show "state_equiv R (heap w1 result)
         (composition_of inverted R (ndebug w1) (heap w1 this) (heap w1 other))"
        using eq by (simp add: ns_def h1 nd)
    qed
    moreover have "table_ok R w'"
      by (rule table_ok_caches [OF tab1 diff])
    moreover have "state_equiv R (heap w' result) ns"
      using eq state_equiv_content [OF content [of result], of ns ns R]
      by (simp add: same_content_def)
    moreover have "valid_state R (heap w' result)"
      using val by (simp add: valid_state_content [OF content])
    moreover have "\<forall>q<next_ptr w. same_content (heap w' q) (heap w q)"
      using content same by (metis nat_neq_iff)
    ultimately show ?thesis
      using le by (simp add: flags np nd sc)
  qed
  show ?thesis
  proof (cases "cache_find c other")
    case None
    define w2 where "w2 = store_result inverted w1 this other (Some result)"
    define w3 where "w3 = (if other \<noteq> this then store_result inverted w2 other this None else w2)"
    define w' where "w' = (if result \<noteq> this then cache_ref w3 result else w3)"
    have cc: "cached_composition inverted R w this other = Some (result, w')"
      using None dc
      by (simp add: cached_composition_def c_def [symmetric] w'_def w3_def w2_def Let_def)
    have d2: "only_caches_differ w1 w2"
      unfolding w2_def by (rule only_caches_differ_store [OF only_caches_differ_refl])
    have d3: "only_caches_differ w1 w3"
      unfolding w3_def using d2 by (simp add: only_caches_differ_store)
    have d': "only_caches_differ w1 w'"
      unfolding w'_def using d3 by (simp add: only_caches_differ_cache_ref)
    have e: "(q, Some r) \<in> set (cache_of i (heap w1 p))
        \<or> (i = inverted \<and> p = this \<and> q = other \<and> r = result)"
      if m: "(q, Some r) \<in> set (cache_of i (heap w' p))" for i p q r
    proof -
      from m have m3: "(q, Some r) \<in> set (cache_of i (heap w3 p))"
        by (simp add: w'_def cache_of_cache_ref split: if_splits)
      have m2: "(q, Some r) \<in> set (cache_of i (heap w2 p))"
      proof (cases "other \<noteq> this")
        case True
        with m3 have "(q, Some r) \<in> set (cache_of i (heap (store_result inverted w2 other this None) p))"
          by (simp add: w3_def)
        from entries_store [OF this] show ?thesis by simp
      next
        case False
        with m3 show ?thesis by (simp add: w3_def)
      qed
      then show ?thesis
        unfolding w2_def by (auto dest: entries_store)
    qed
    from fin [OF d'] e cc show ?thesis
      unfolding ns_def by blast
  next
    case (Some index)
    from cache_find_Some [OF Some] have ix: "index < length c" "fst (c ! index) = other"
      by simp_all
    show ?thesis
    proof (cases "snd (c ! index)")
      case None
      define w2 where "w2 = put w1 this
             (set_cache_of inverted ((cache_of inverted (heap w1 this))[index := (other, Some result)])
                (heap w1 this))"
      define w' where "w' = (if result \<noteq> this then cache_ref w2 result else w2)"
      have cc: "cached_composition inverted R w this other = Some (result, w')"
        using None Some dc
        by (simp add: cached_composition_def c_def [symmetric] w'_def w2_def Let_def)
      have d2: "only_caches_differ w1 w2"
        unfolding w2_def by (rule only_caches_differ_put [OF only_caches_differ_refl])
      have d': "only_caches_differ w1 w'"
        unfolding w'_def using d2 by (simp add: only_caches_differ_cache_ref)
      have e: "(q, Some r) \<in> set (cache_of i (heap w1 p))
          \<or> (i = inverted \<and> p = this \<and> q = other \<and> r = result)"
        if m: "(q, Some r) \<in> set (cache_of i (heap w' p))" for i p q r
      proof -
        from m have "(q, Some r) \<in> set (cache_of i (heap w2 p))"
          by (simp add: w'_def cache_of_cache_ref split: if_splits)
        then show ?thesis
          unfolding w2_def by (auto dest: entries_update)
      qed
      from fin [OF d'] e cc show ?thesis
        unfolding ns_def by blast
    next
      case (Some r)
      with ix have "c ! index = (other, Some r)"
        by (metis prod.collapse)
      with ix(1) have "(other, Some r) \<in> set c"
        by (metis nth_mem)
      with coh have f: "r < next_ptr w" "valid_state R (heap w r)"
        "state_equiv R (heap w r) ns"
        unfolding coherent_def c_def ns_def by blast+
      have "cached_composition inverted R w this other = Some (r, w)"
        using Some \<open>cache_find c other = Some index\<close>
        by (simp add: cached_composition_def c_def [symmetric])
      with f coh tab show ?thesis
        by (simp add: ns_def same_content_def)
    qed
  qed
qed




lemma composition_early:
  "composition inverted R w this other =
     (if is_empty (heap w this) then Some (other, w)
      else if (if inverted then other = this else is_empty (heap w other))
      then Some (if inverted then empty_state w else this, w)
      else if \<not> state_cache w
      then (if inverted then do_invert_compose R w this other else do_compose R w this other)
      else cached_composition inverted R w this other)"
  by (simp add: composition_def compose_def invert_compose_def)


lemma composition_keeps_coherent:
  assumes ops: "attrib_ops_ok R" and tab: "table_ok R w" and coh: "coherent R w"
    and sc: "state_cache w"
    and a: "a < next_ptr w" "valid_state R (heap w a)"
    and b: "b < next_ptr w" "valid_state R (heap w b)"
    and e: "empty_state w < next_ptr w"
  shows "\<exists>r w'. composition inverted R w a b = Some (r, w')
    \<and> coherent R w' \<and> table_ok R w' \<and> state_cache w' \<and> r < next_ptr w'
    \<and> next_ptr w \<le> next_ptr w'"
proof (cases "is_empty (heap w a)
    \<or> (if inverted then b = a else is_empty (heap w b))")
  case True
  then have "composition inverted R w a b
      = Some (if is_empty (heap w a) then b else if inverted then empty_state w else a, w)"
    by (auto simp: composition_early)
  with tab coh sc a b e show ?thesis by auto
next
  case False
  with sc have "composition inverted R w a b = cached_composition inverted R w a b"
    by (auto simp: composition_early)
  with cached_composition_result [OF ops tab coh a b, of inverted] sc show ?thesis
    by auto
qed



lemma valid_cache_update [simp]:
  "valid_state R (s\<lparr>composition_cache := c\<rparr>) = valid_state R s"
  by (simp add: valid_state_def)





lemma is_empty_cache_update [simp]:
  "is_empty (s\<lparr>composition_cache := c\<rparr>) = is_empty s"
  by (simp add: is_empty_def)




lemma composed_a_b_value:
  "composed_state example_ops False state_a state_b =
     blank_state
       \<lparr>filled_slots := slots_mask [1, 2],
        attributes := (\<lambda>slot. default_attribute)
          (1 := \<lparr>attrib = Some 21, override = 1\<rparr>, 2 := \<lparr>attrib = Some 6, override = 3\<rparr>)\<rparr>"
proof -
  have f: "filled_slots state_a OR filled_slots state_b = slots_mask [1, 2]"
    by (rule bit_eqI) (auto simp: bit_or_iff state_a_def state_b_def bit_slots_mask)
  have "(\<lambda>slot. if bit (slots_mask [1, 2]) slot
           then the (compose_slot example_ops False (attributes state_a slot)
                       (attributes state_b slot))
           else default_attribute) =
        (\<lambda>slot. default_attribute)
          (1 := \<lparr>attrib = Some 21, override = 1\<rparr>, 2 := \<lparr>attrib = Some 6, override = 3\<rparr>)"
    by (intro ext)
      (auto simp: bit_slots_mask compose_slot_def example_slots example_ops_simps
        default_attribute_def)
  then show ?thesis
    by (simp add: composed_state_def f)
qed

lemma example_hashes_known:
  "get_hash R nd canonical_empty = 0" "get_hash R nd state_a = 62"
  "get_hash R nd state_b = 179927"
  by (simp_all add: get_hash_def check_hash_def canonical_empty_def state_a_def state_b_def
      blank_state_def)

lemma example_ops_hash:
  "pointer_add_hash example_ops h p = 31 * h + (case p of None \<Rightarrow> 0 | Some a \<Rightarrow> Suc a)"
  "int_add_hash example_ops h i = 31 * h + nat i"
  by (simp_all add: example_ops_def)

lemma composed_a_b_hash:
  "check_hash example_ops False (composed_state example_ops False state_a state_b) =
     (composed_state example_ops False state_a state_b)\<lparr>hash := 656583, hash_known := True\<rparr>"
proof -
  define c where "c = composed_state example_ops False state_a state_b"
  have v: "\<forall>n. bit (filled_slots c) n \<longrightarrow> attrib (attributes c n) \<noteq> None"
    by (auto simp: c_def composed_a_b_value bit_slots_mask)
  have "calc_hash_loop example_ops False c (filled_slots c) 0 = (True, 656583)"
    using calc_hash_loop_fold [OF v, of example_ops False 0]
    by (simp add: c_def composed_a_b_value on_bits_examples example_ops_hash)
  moreover have "\<not> hash_known c"
    by (simp add: c_def composed_a_b_value blank_state_def)
  ultimately show ?thesis
    by (simp add: check_hash_def do_calc_hash_def c_def [symmetric])
qed

lemma cached_world_reached:
  "compose example_ops example_world 1 2 = Some (3, cached_world)"
proof -
  define c where "c = composed_state example_ops False state_a state_b"
  define w2 where "w2 = example_world\<lparr>next_ptr := Suc (next_ptr example_world),
      heap := (heap example_world)(next_ptr example_world := c)\<rparr>"
  define s where "s = c\<lparr>hash := 656583, hash_known := True\<rparr>"
  have v: "Suc 0 < next_ptr example_world" "valid_state example_ops (heap example_world (Suc 0))"
    "2 < next_ptr example_world" "valid_state example_ops (heap example_world 2)"
    using valid_state_a valid_state_b by (simp_all add: example_heap)
  have dc: "do_compose example_ops example_world (Suc 0) 2 = return_new example_ops w2 3"
    unfolding do_compose_unfold [OF v] w2_def c_def
    by (simp add: example_heap) (simp add: example_world_def)
  have h2: "heap w2 3 = c" "heap w2 0 = canonical_empty" "heap w2 (Suc 0) = state_a"
    "heap w2 2 = state_b" "states w2 = [0, Suc 0, 2]" "state_cache w2" "uniquify_states w2"
    "uniquify_attribs w2" "\<not> garbage_collect_states w2" "\<not> paranoid_const w2" "\<not> ndebug w2"
    by (simp_all add: w2_def example_world_def)
  have cv: "valid_state example_ops (heap w2 3)"
    unfolding h2 c_def by (rule composed_state_valid [OF valid_state_a valid_state_b])
  have cs: "saved_entry c = -1" "ref_count c = 0"
    by (simp_all add: c_def composed_a_b_value blank_state_def)
  have guard: "\<not> (\<not> state_cache w2
      \<or> (\<not> ndebug w2 \<and> paranoid_const w2 \<and> \<not> validate_states example_ops w2)
      \<or> saved_entry (heap w2 3) \<noteq> -1)"
    by (simp add: h2 cs)
  have us: "(if \<not> uniquify_attribs w2 \<and> \<not> is_empty (heap w2 3)
      then uniquify_loop example_ops (heap w2 3) (filled_slots (heap w2 3))
      else Some (heap w2 3)) = Some c"
    by (simp add: h2)
  have sh: "s = check_hash example_ops (ndebug w2) c"
    by (simp add: s_def h2 c_def composed_a_b_hash)
  have gs: "get_hash example_ops False s = 656583"
    by (simp add: get_hash_def check_hash_def s_def)
  have fs: "find_state example_ops (put w2 3 s) (states w2) 3 = None"
    by (simp add: h2 put_def example_hashes_known gs)
  have rn: "return_new example_ops w2 3 =
      Some (3, (put (put w2 3 s) 3 (s\<lparr>saved_entry := 3\<rparr>))\<lparr>states := [0, Suc 0, 2, 3]\<rparr>)"
    unfolding return_new_valid [OF example_ops_ok cv]
      return_unique_search [OF guard us sh] fs
    by (simp add: h2) (simp add: put_def)
  have e: "\<not> is_empty (heap example_world (Suc 0))" "\<not> is_empty (heap example_world 2)"
    by (simp_all add: example_heap is_empty_examples)
  have empty: "composition_cache state_a = []" "composition_cache state_b = []"
    by (simp_all add: state_a_def state_b_def blank_state_def)
  have heap_eq: "(heap example_world)
      (3 := s\<lparr>saved_entry := 3, cache_ref_count := 1, ref_count := 1\<rparr>,
       Suc 0 := state_a\<lparr>composition_cache := [(2, Some 3)]\<rparr>,
       2 := state_b\<lparr>composition_cache := [(Suc 0, None)]\<rparr>)
     = heap cached_world"
    by (intro ext)
      (simp add: cached_world_def s_def c_def composed_a_b_value state_c_def blank_state_def)
  show ?thesis
    using e
    apply (simp add: compose_def example_heap cached_composition_def cache_of_def empty dc rn)
    apply (simp add: store_result_def cache_assign_def cache_of_def set_cache_of_def put_def
        cache_ref_def h2 empty Let_def s_def cs)
    apply (simp add: w2_def cached_world_def example_world_def)
    apply (intro ext)
    apply (simp add: s_def c_def composed_a_b_value state_c_def blank_state_def)
    done
qed

end
